theory Spec2Isabelle
  imports Complex_Main
begin

section \<open>JavaScript strings\<close>

text \<open>
  A JavaScript string is a sequence of UTF-16 code units.  A code unit is modelled as a
  natural number (every number below \<open>65536\<close> is one), a string as a list of them.
  \<open>js\<close> turns a literal into such a list.
\<close>

type_synonym jschar = nat
type_synonym jsstring = "jschar list"

definition js :: "string \<Rightarrow> jsstring" where
  "js s = map of_char s"

text \<open>ECMAScript \<open>LineTerminator\<close>: LF, CR, U+2028, U+2029.\<close>

definition is_line_terminator :: "jschar \<Rightarrow> bool" where
  "is_line_terminator ch = (ch = 10 \<or> ch = 13 \<or> ch = 8232 \<or> ch = 8233)"

text \<open>
  ECMAScript \<open>WhiteSpace\<close> and \<open>LineTerminator\<close> together: what \<^verbatim>\<open>\s\<close> matches and
  what \<^verbatim>\<open>trim\<close> strips.
\<close>

definition is_white_space :: "jschar \<Rightarrow> bool" where
  "is_white_space ch =
     ((9 \<le> ch \<and> ch \<le> 13) \<or> ch = 32 \<or> ch = 160 \<or> ch = 5760 \<or>
      (8192 \<le> ch \<and> ch \<le> 8202) \<or> ch = 8232 \<or> ch = 8233 \<or> ch = 8239 \<or>
      ch = 8287 \<or> ch = 12288 \<or> ch = 65279)"

definition is_digit :: "jschar \<Rightarrow> bool" where
  "is_digit ch = (48 \<le> ch \<and> ch \<le> 57)"

definition is_word_char :: "jschar \<Rightarrow> bool" where
  "is_word_char ch =
     ((97 \<le> ch \<and> ch \<le> 122) \<or> (65 \<le> ch \<and> ch \<le> 90) \<or> (48 \<le> ch \<and> ch \<le> 57) \<or> ch = 95)"

definition trim :: "jsstring \<Rightarrow> jsstring" where
  "trim s = rev (dropWhile is_white_space (rev (dropWhile is_white_space s)))"

text \<open>
  \<^verbatim>\<open>toLowerCase\<close>, by code unit: exact on U+0000 to U+00FF; the case tables of Unicode
  beyond Latin-1 are not modelled, such code units are left as they are.
\<close>

definition lower_char :: "jschar \<Rightarrow> jschar" where
  "lower_char ch =
     (if (65 \<le> ch \<and> ch \<le> 90) \<or> (192 \<le> ch \<and> ch \<le> 222 \<and> ch \<noteq> 215) then ch + 32 else ch)"

definition toLowerCase :: "jsstring \<Rightarrow> jsstring" where
  "toLowerCase s = map lower_char s"

text \<open>\<^verbatim>\<open>s.startsWith(t)\<close>, here as \<open>starts_with False t s\<close>; with \<open>True\<close> the comparison
  ignores case the way a regular expression with the flag \<^verbatim>\<open>i\<close> does.\<close>

definition canonicalize :: "jschar \<Rightarrow> jschar" where
  "canonicalize ch = (if 97 \<le> ch \<and> ch \<le> 122 then ch - 32 else ch)"

definition char_eq :: "bool \<Rightarrow> jschar \<Rightarrow> jschar \<Rightarrow> bool" where
  "char_eq ic a b = (if ic then canonicalize a = canonicalize b else a = b)"

fun starts_with :: "bool \<Rightarrow> jsstring \<Rightarrow> jsstring \<Rightarrow> bool" where
  "starts_with ic [] s = True"
| "starts_with ic (x # xs) [] = False"
| "starts_with ic (x # xs) (y # ys) = (char_eq ic x y \<and> starts_with ic xs ys)"

fun js_includes :: "jsstring \<Rightarrow> jsstring \<Rightarrow> bool" where
  "js_includes [] t = (t = [])"
| "js_includes (y # ys) t = (starts_with False t (y # ys) \<or> js_includes ys t)"

text \<open>\<^verbatim>\<open>s.split(sep)\<close> for a separator of one code unit: never an empty list.\<close>

fun split_char :: "jschar \<Rightarrow> jsstring \<Rightarrow> jsstring list" where
  "split_char sep [] = [[]]"
| "split_char sep (y # ys) =
     (if y = sep then [] # split_char sep ys
      else (case split_char sep ys of [] \<Rightarrow> [[y]] | t # ts \<Rightarrow> (y # t) # ts))"

section \<open>Regular expressions\<close>

text \<open>
  The scripts do most of their work with regular expressions, so the model has the
  backtracking matcher of ECMAScript (without the flag \<^verbatim>\<open>u\<close>) for the constructs the
  scripts use: literals, classes, the dot, sequence, alternative, greedy and lazy
  quantifiers, capturing groups, back references, lookahead, \<^verbatim>\<open>^\<close>, \<^verbatim>\<open>$\<close> and \<^verbatim>\<open>\b\<close>.

  With the flag \<^verbatim>\<open>i\<close> two code units match when their \<open>Canonicalize\<close> values agree.
  ECMAScript never lets a code unit from U+0080 on canonicalize to one below it, and every
  literal and class member of the patterns below is ASCII or has no case, so
  \<open>canonicalize\<close> only has to map the ASCII lower case letters to upper case.
\<close>

datatype catom = CU jschar | CRange jschar jschar | CDigit | CSpace | CNotSpace | CWord

fun in_atom :: "bool \<Rightarrow> jschar \<Rightarrow> catom \<Rightarrow> bool" where
  "in_atom ic ch (CU e) = char_eq ic e ch"
| "in_atom ic ch (CRange lo hi) =
     ((lo \<le> ch \<and> ch \<le> hi) \<or>
      (ic \<and> ((lo \<le> canonicalize ch \<and> canonicalize ch \<le> hi) \<or>
             (65 \<le> ch \<and> ch \<le> 90 \<and> lo \<le> ch + 32 \<and> ch + 32 \<le> hi))))"
| "in_atom ic ch CDigit = is_digit ch"
| "in_atom ic ch CSpace = is_white_space ch"
| "in_atom ic ch CNotSpace = (\<not> is_white_space ch)"
| "in_atom ic ch CWord = is_word_char ch"

text \<open>
  \<open>Rep greedy min max r\<close> is a quantifier (\<open>max = None\<close>: unbounded), \<open>Grp i r\<close> the
  \<open>i\<close>-th capturing group, \<open>Bref i\<close> the back reference \<^verbatim>\<open>\i\<close>, \<open>Ahead\<close> and \<open>NAhead\<close>
  the lookaheads \<^verbatim>\<open>(?=r)\<close> and \<^verbatim>\<open>(?!r)\<close>, \<open>Bol\<close>, \<open>Eol\<close> and \<open>Wb\<close> the assertions
  \<^verbatim>\<open>^\<close>, \<^verbatim>\<open>$\<close> and \<^verbatim>\<open>\b\<close>.  A non-capturing group is its body.
\<close>

datatype regex =
    Lit jsstring
  | Set "catom list"
  | NSet "catom list"
  | Dot
  | Seq regex regex
  | Alt regex regex
  | Rep bool nat "nat option" regex
  | Grp nat regex
  | Bref nat
  | Ahead regex
  | NAhead regex
  | Bol
  | Eol
  | Wb

fun cat :: "regex list \<Rightarrow> regex" where
  "cat [] = Lit []"
| "cat [r] = r"
| "cat (r # rs) = Seq r (cat rs)"

fun alt :: "regex list \<Rightarrow> regex" where
  "alt [] = Lit []"
| "alt [r] = r"
| "alt (r # rs) = Alt r (alt rs)"

text \<open>
  The captures map a group to the text it matched last; a group that did not take part
  has no entry (\<^verbatim>\<open>undefined\<close>).  A quantifier clears the groups of its body at the start
  of every iteration.
\<close>

type_synonym caps = "(nat \<times> jsstring) list"

fun groups :: "regex \<Rightarrow> nat list" where
  "groups (Seq a b) = groups a @ groups b"
| "groups (Alt a b) = groups a @ groups b"
| "groups (Rep g mn mx a) = groups a"
| "groups (Grp i a) = i # groups a"
| "groups (Ahead a) = groups a"
| "groups (NAhead a) = groups a"
| "groups r = []"

definition cap_clear :: "nat list \<Rightarrow> caps \<Rightarrow> caps" where
  "cap_clear gs c = filter (\<lambda>(i, t). i \<notin> set gs) c"

definition cap_set :: "nat \<Rightarrow> jsstring \<Rightarrow> caps \<Rightarrow> caps" where
  "cap_set i t c = (i, t) # filter (\<lambda>(j, u). j \<noteq> i) c"

text \<open>\<open>cap c i\<close> is \<^verbatim>\<open>$i\<close> in a replacement: empty for a group that took no part.\<close>

definition cap :: "caps \<Rightarrow> nat \<Rightarrow> jsstring" where
  "cap c i = (case map_of c i of None \<Rightarrow> [] | Some t \<Rightarrow> t)"

text \<open>
  The matcher is ECMAScript's, in continuation-passing style.  The state is the code unit
  before the current position (\<open>None\<close> at the start of the input), the number \<open>n\<close> of
  code units left, the input left, and the captures; \<open>k\<close> is what remains to be matched.
  A quantifier with \<open>min = 0\<close> refuses an iteration that consumed nothing, as
  \<open>RepeatMatcher\<close> does.  The test \<open>n' \<le> n\<close> never fails (the matcher only moves forward).
\<close>

type_synonym rres = "jschar option \<times> nat \<times> jsstring \<times> caps"
type_synonym rcont = "jschar option \<Rightarrow> nat \<Rightarrow> jsstring \<Rightarrow> caps \<Rightarrow> rres option"

fun rsize :: "regex \<Rightarrow> nat" where
  "rsize (Lit xs) = Suc (length xs)"
| "rsize (Seq a b) = Suc (rsize a + rsize b)"
| "rsize (Alt a b) = Suc (rsize a + rsize b)"
| "rsize (Rep g mn mx a) = Suc (rsize a)"
| "rsize (Grp i a) = Suc (rsize a)"
| "rsize (Ahead a) = Suc (rsize a)"
| "rsize (NAhead a) = Suc (rsize a)"
| "rsize r = 1"

fun rep_min :: "regex \<Rightarrow> nat" where
  "rep_min (Rep g mn mx a) = mn"
| "rep_min r = 0"

definition final :: rcont where
  "final p n s c = Some (p, n, s, c)"

function rmatch ::
  "bool \<Rightarrow> bool \<Rightarrow> regex \<Rightarrow> jschar option \<Rightarrow> nat \<Rightarrow> jsstring \<Rightarrow> caps \<Rightarrow> rcont \<Rightarrow> rres option"
where
  "rmatch ic ml (Lit []) p n s c k = k p n s c"
| "rmatch ic ml (Lit (x # xs)) p n s c k =
     (case s of [] \<Rightarrow> None
      | y # ys \<Rightarrow> if char_eq ic x y then rmatch ic ml (Lit xs) (Some y) (n - 1) ys c k else None)"
| "rmatch ic ml (Set as) p n s c k =
     (case s of [] \<Rightarrow> None
      | y # ys \<Rightarrow> if list_ex (in_atom ic y) as then k (Some y) (n - 1) ys c else None)"
| "rmatch ic ml (NSet as) p n s c k =
     (case s of [] \<Rightarrow> None
      | y # ys \<Rightarrow> if list_ex (in_atom ic y) as then None else k (Some y) (n - 1) ys c)"
| "rmatch ic ml Dot p n s c k =
     (case s of [] \<Rightarrow> None
      | y # ys \<Rightarrow> if is_line_terminator y then None else k (Some y) (n - 1) ys c)"
| "rmatch ic ml (Seq a b) p n s c k =
     rmatch ic ml a p n s c (\<lambda>p' n' s' c'. rmatch ic ml b p' n' s' c' k)"
| "rmatch ic ml (Alt a b) p n s c k =
     (case rmatch ic ml a p n s c k of Some r \<Rightarrow> Some r | None \<Rightarrow> rmatch ic ml b p n s c k)"
| "rmatch ic ml (Grp i a) p n s c k =
     rmatch ic ml a p n s c (\<lambda>p' n' s' c'. k p' n' s' (cap_set i (take (n - n') s) c'))"
| "rmatch ic ml (Bref i) p n s c k =
     (case map_of c i of None \<Rightarrow> k p n s c
      | Some t \<Rightarrow>
          if t = [] then k p n s c
          else if starts_with ic t s
          then k (Some (s ! (length t - 1))) (n - length t) (drop (length t) s) c
          else None)"
| "rmatch ic ml (Ahead a) p n s c k =
     (case rmatch ic ml a p n s c final of
        None \<Rightarrow> None
      | Some (p', n', s', c') \<Rightarrow> k p n s c')"
| "rmatch ic ml (NAhead a) p n s c k =
     (case rmatch ic ml a p n s c final of
        None \<Rightarrow> k p n s c
      | Some r \<Rightarrow> None)"
| "rmatch ic ml Bol p n s c k =
     (case p of None \<Rightarrow> k p n s c
      | Some q \<Rightarrow> if ml \<and> is_line_terminator q then k p n s c else None)"
| "rmatch ic ml Eol p n s c k =
     (case s of [] \<Rightarrow> k p n s c
      | y # ys \<Rightarrow> if ml \<and> is_line_terminator y then k p n s c else None)"
| "rmatch ic ml Wb p n s c k =
     (if (case p of None \<Rightarrow> False | Some q \<Rightarrow> is_word_char q) \<noteq>
         (case s of [] \<Rightarrow> False | y # ys \<Rightarrow> is_word_char y)
      then k p n s c else None)"
| "rmatch ic ml (Rep g mn mx a) p n s c k =
     (if mx = Some 0 then k p n s c
      else if 0 < mn then
        rmatch ic ml a p n s (cap_clear (groups a) c)
          (\<lambda>p' n' s' c'. if n' \<le> n
             then rmatch ic ml (Rep g (mn - 1) (map_option (\<lambda>m. m - 1) mx) a) p' n' s' c' k
             else None)
      else if g then
        (case rmatch ic ml a p n s (cap_clear (groups a) c)
                (\<lambda>p' n' s' c'. if n' < n
                   then rmatch ic ml (Rep g 0 (map_option (\<lambda>m. m - 1) mx) a) p' n' s' c' k
                   else None) of
           Some r \<Rightarrow> Some r
         | None \<Rightarrow> k p n s c)
      else
        (case k p n s c of
           Some r \<Rightarrow> Some r
         | None \<Rightarrow>
             rmatch ic ml a p n s (cap_clear (groups a) c)
               (\<lambda>p' n' s' c'. if n' < n
                  then rmatch ic ml (Rep g 0 (map_option (\<lambda>m. m - 1) mx) a) p' n' s' c' k
                  else None)))"
  by pat_completeness auto
termination
  by (relation "inv_image (less_than <*lex*> less_than <*lex*> less_than)
        (\<lambda>(ic, ml, r, p, n, s, c, k). (rsize r, n, rep_min r))") auto

declare rmatch.simps [simp del]

text \<open>
  \<open>re_search\<close> is \<open>RegExpBuiltinExec\<close> from the current position: it tries every start
  from left to right and gives the first match: the input and count at its start, and
  the state at its end.
\<close>

fun re_search ::
  "bool \<Rightarrow> bool \<Rightarrow> regex \<Rightarrow> jschar option \<Rightarrow> nat \<Rightarrow> jsstring \<Rightarrow> (nat \<times> jsstring \<times> rres) option"
where
  "re_search ic ml r p n [] =
     (case rmatch ic ml r p n [] [] final of None \<Rightarrow> None | Some e \<Rightarrow> Some (n, [], e))"
| "re_search ic ml r p n (y # ys) =
     (case rmatch ic ml r p n (y # ys) [] final of
        None \<Rightarrow> re_search ic ml r (Some y) (n - 1) ys
      | Some e \<Rightarrow> Some (n, y # ys, e))"


definition re_match :: "bool \<Rightarrow> bool \<Rightarrow> regex \<Rightarrow> jsstring \<Rightarrow> caps option" where
  "re_match ic ml r s =
     (case re_search ic ml r None (length s) s of
        None \<Rightarrow> None
      | Some (n0, s0, p', n', s', c') \<Rightarrow> Some (cap_set 0 (take (n0 - n') s0) c'))"

text \<open>
  \<^verbatim>\<open>s.replace(re, f)\<close> with the flag \<^verbatim>\<open>g\<close>: every match, from left to right, is replaced
  by \<open>f\<close> of the matched text and the captures; after an empty match the search moves
  on by one code unit.
\<close>

function replace_from ::
  "bool \<Rightarrow> bool \<Rightarrow> regex \<Rightarrow> (jsstring \<Rightarrow> caps \<Rightarrow> jsstring) \<Rightarrow> jschar option \<Rightarrow> nat \<Rightarrow> jsstring \<Rightarrow> jsstring"
where
  "replace_from ic ml r f p n s =
     (case rmatch ic ml r p n s [] final of
        Some (p', n', s', c') \<Rightarrow>
          f (take (n - n') s) c' @
          (if n' < n then replace_from ic ml r f p' n' s'
           else (case s of [] \<Rightarrow> [] | y # ys \<Rightarrow> y # replace_from ic ml r f (Some y) (n - 1) ys))
      | None \<Rightarrow> (case s of [] \<Rightarrow> [] | y # ys \<Rightarrow> y # replace_from ic ml r f (Some y) (n - 1) ys))"
  by pat_completeness auto
termination
  by (relation "inv_image (less_than <*lex*> less_than) (\<lambda>(ic, ml, r, f, p, n, s). (n, length s))") auto

declare replace_from.simps [simp del]

definition replace_all ::
  "bool \<Rightarrow> bool \<Rightarrow> regex \<Rightarrow> (jsstring \<Rightarrow> caps \<Rightarrow> jsstring) \<Rightarrow> jsstring \<Rightarrow> jsstring"
where
  "replace_all ic ml r f s = replace_from ic ml r f None (length s) s"

text \<open>\<^verbatim>\<open>s.replace(re, f)\<close> without the flag \<^verbatim>\<open>g\<close>: the first match only.\<close>

definition replace_first ::
  "bool \<Rightarrow> bool \<Rightarrow> regex \<Rightarrow> (jsstring \<Rightarrow> caps \<Rightarrow> jsstring) \<Rightarrow> jsstring \<Rightarrow> jsstring"
where
  "replace_first ic ml r f s =
     (case re_search ic ml r None (length s) s of
        None \<Rightarrow> s
      | Some (n0, s0, p', n', s', c') \<Rightarrow>
          take (length s - n0) s @ f (take (n0 - n') s0) c' @ s')"

subsection \<open>Facts about the matcher\<close>

lemmas rmatch_simps = rmatch.simps(1-14)

fun atom_pred :: "bool \<Rightarrow> regex \<Rightarrow> jschar \<Rightarrow> bool" where
  "atom_pred ic (Set as) y = list_ex (in_atom ic y) as"
| "atom_pred ic (NSet as) y = (\<not> list_ex (in_atom ic y) as)"
| "atom_pred ic Dot y = (\<not> is_line_terminator y)"
| "atom_pred ic r y = False"

fun is_atom :: "regex \<Rightarrow> bool" where
  "is_atom (Set as) = True"
| "is_atom (NSet as) = True"
| "is_atom Dot = True"
| "is_atom r = False"

lemma cap_clear_Nil [simp]: "cap_clear [] c = c"
  by (induction c) (auto simp: cap_clear_def)

lemma is_atom_groups [simp]: "is_atom a \<Longrightarrow> groups a = []"
  by (cases a) auto

lemma rmatch_atom_Nil: "is_atom a \<Longrightarrow> rmatch ic ml a p n [] c k = None"
  by (cases a) (auto simp: rmatch_simps)

lemma rmatch_atom_Cons:
  "is_atom a \<Longrightarrow> rmatch ic ml a p n (y # ys) c k =
     (if atom_pred ic a y then k (Some y) (n - 1) ys c else None)"
  by (cases a) (auto simp: rmatch_simps)

fun star_greedy :: "(jschar \<Rightarrow> bool) \<Rightarrow> rcont \<Rightarrow> rcont" where
  "star_greedy P k p n [] c = k p n [] c"
| "star_greedy P k p n (y # ys) c =
     (if P y then (case star_greedy P k (Some y) (n - 1) ys c of
                     Some r \<Rightarrow> Some r
                   | None \<Rightarrow> k p n (y # ys) c)
      else k p n (y # ys) c)"

lemma rmatch_star_greedy:
  "is_atom a \<Longrightarrow>
   rmatch ic ml (Rep True 0 None a) p (length s) s c k = star_greedy (atom_pred ic a) k p (length s) s c"
proof (induction s arbitrary: p)
  case Nil
  then show ?case by (subst rmatch.simps) (simp add: rmatch_atom_Nil)
next
  case (Cons y ys)
  show ?case using Cons.prems Cons.IH[OF Cons.prems, of "Some y"]
    by (subst rmatch.simps) (simp add: rmatch_atom_Cons split: option.split)
qed

lemma search_bol_fail:
  "re_search ic False (Seq Bol r) (Some q) n s = None"
  by (induction s arbitrary: q n) (simp_all add: rmatch_simps)

lemma match_bol:
  "re_match ic False (Seq Bol r) s =
     (case rmatch ic False r None (length s) s [] final of
        None \<Rightarrow> None
      | Some (p', n', s', c') \<Rightarrow> Some (cap_set 0 (take (length s - n') s) c'))"
  by (cases s) (simp_all add: re_match_def rmatch_simps search_bol_fail split: option.splits)



lemma split_char_nonempty [simp]: "split_char c s \<noteq> []"
  by (induction s) (auto split: list.splits)




section \<open>Slug reconciler (frontend WordPress client and the CSV sync script)\<close>

text \<open>
  \<^verbatim>\<open>Number(match[2])\<close>: the second group is one or two ASCII digits, on which \<^verbatim>\<open>Number\<close>
  is the decimal value (a finite number).
\<close>

definition decimal :: "jsstring \<Rightarrow> nat" where
  "decimal ds = foldl (\<lambda>a d. 10 * a + (d - 48)) 0 ds"

text \<open>The pattern \<^verbatim>\<open>/^(.*)-(\d{1,2})$/\<close>.\<close>

definition dupSuffixRe :: regex where
  "dupSuffixRe = cat [Bol, Grp 1 (Rep True 0 None Dot), Lit (js ''-''),
                      Grp 2 (Rep True 1 (Some 2) (Set [CDigit])), Eol]"

definition stripWpDuplicateSuffix :: "jsstring \<Rightarrow> jsstring" where
  "stripWpDuplicateSuffix slug =
     (case re_match False False dupSuffixRe slug of
        None \<Rightarrow> slug
      | Some m \<Rightarrow>
          (if decimal (cap m 2) < 2 \<or> 99 < decimal (cap m 2) then slug else cap m 1))"

text \<open>
  The copy in \<^verbatim>\<open>sync_wp_insights_from_csv.mjs\<close> starts with
  \<^verbatim>\<open>const value = String(slug || '').trim()\<close> and goes on with \<^verbatim>\<open>value\<close> as above.
\<close>

definition stripWpDuplicateSuffix_csv :: "jsstring \<Rightarrow> jsstring" where
  "stripWpDuplicateSuffix_csv slug =
     (let v = trim slug in
      case re_match False False dupSuffixRe v of
        None \<Rightarrow> v
      | Some m \<Rightarrow>
          (if decimal (cap m 2) < 2 \<or> 99 < decimal (cap m 2) then v else cap m 1))"

definition isWpDuplicateSlug :: "jsstring \<Rightarrow> bool" where
  "isWpDuplicateSlug slug = (stripWpDuplicateSuffix slug \<noteq> slug)"

subsection \<open>What the pattern matches\<close>

text \<open>
  \<open>greedy_tail s\<close> is where the greedy \<^verbatim>\<open>(.*)\<close> ends up: the rest of \<open>s\<close> after the
  longest prefix free of line terminators whose rest is a hyphen and one or two digits.
\<close>

fun is_dup_tail :: "jsstring \<Rightarrow> bool" where
  "is_dup_tail [m, d] = (m = 45 \<and> is_digit d)"
| "is_dup_tail [m, d, e] = (m = 45 \<and> is_digit d \<and> is_digit e)"
| "is_dup_tail t = False"

fun greedy_tail :: "jsstring \<Rightarrow> jsstring option" where
  "greedy_tail [] = None"
| "greedy_tail (y # ys) =
     (if \<not> is_line_terminator y
      then (case greedy_tail ys of
              Some t \<Rightarrow> Some t
            | None \<Rightarrow> if is_dup_tail (y # ys) then Some (y # ys) else None)
      else if is_dup_tail (y # ys) then Some (y # ys) else None)"

definition dupTailRe :: regex where
  "dupTailRe = Seq (Lit [45]) (Seq (Grp 2 (Rep True 1 (Some 2) (Set [CDigit]))) Eol)"

lemma char_eq_False [simp]: "char_eq False a b = (a = b)"
  by (simp add: char_eq_def)

lemma tail_match:
  "rmatch False False dupTailRe
      p (length t) t c final =
   (if is_dup_tail t then Some (Some (last t), 0, [], cap_set 2 (tl t) c) else None)"
  by (cases t rule: is_dup_tail.cases)
     (auto simp: dupTailRe_def rmatch.simps final_def cap_clear_def)

lemma star_tail:
  "star_greedy (atom_pred False Dot)
     (\<lambda>p' n' s' c'. rmatch False False dupTailRe
        p' n' s' (cap_set (Suc 0) (take (L - n') s0) c') final) p (length r) r [] =
   map_option (\<lambda>t. (Some (last t), 0, [], cap_set 2 (tl t) (cap_set (Suc 0) (take (L - length t) s0) [])))
     (greedy_tail r)"
proof (induction r arbitrary: p)
  case Nil
  show ?case using tail_match[of _ "[]"] by simp
next
  case (Cons y ys)
  show ?case using Cons.IH[of "Some y"] tail_match[of p "y # ys"]
    by (simp split: option.split)
qed

lemma greedy_tail_sound:
  "greedy_tail r = Some t \<Longrightarrow>
     \<exists>u. r = u @ t \<and> list_all (\<lambda>ch. \<not> is_line_terminator ch) u \<and> is_dup_tail t"
proof (induction r)
  case Nil
  then show ?case by simp
next
  case (Cons y ys)
  show ?case
  proof (cases "greedy_tail ys")
    case None
    with Cons.prems have "t = y # ys \<and> is_dup_tail t" by (auto split: if_splits)
    then show ?thesis by auto
  next
    case (Some t')
    show ?thesis
    proof (cases "is_line_terminator y")
      case True
      with Cons.prems have "t = y # ys \<and> is_dup_tail t" by (auto split: if_splits)
      then show ?thesis by auto
    next
      case False
      with Some Cons.prems have "t' = t" by simp
      with Some Cons.IH obtain u where "ys = u @ t" "list_all (\<lambda>ch. \<not> is_line_terminator ch) u" "is_dup_tail t"
        by auto
      with False show ?thesis by (intro exI[of _ "y # u"]) simp
    qed
  qed
qed

lemma is_dup_tail_iff:
  "is_dup_tail t \<longleftrightarrow> (\<exists>ds. t = 45 # ds \<and> list_all is_digit ds \<and> (length ds = 1 \<or> length ds = 2))"
  by (cases t rule: is_dup_tail.cases) auto

lemma digit_not_lt: "is_digit d \<Longrightarrow> \<not> is_line_terminator d \<and> d \<noteq> 45"
  by (auto simp: is_digit_def is_line_terminator_def)

lemma greedy_tail_dup: "is_dup_tail t \<Longrightarrow> greedy_tail t = Some t"
  by (cases t rule: is_dup_tail.cases)
     (auto simp: is_line_terminator_def dest: digit_not_lt)

lemma greedy_tail_complete:
  "list_all (\<lambda>ch. \<not> is_line_terminator ch) u \<Longrightarrow> is_dup_tail t \<Longrightarrow> greedy_tail (u @ t) = Some t"
proof (induction u)
  case Nil
  then show ?case by (simp add: greedy_tail_dup)
next
  case (Cons y u)
  then show ?case by simp
qed

lemma dupSuffixRe_unfold:
  "dupSuffixRe = Seq Bol (Seq (Grp 1 (Rep True 0 None Dot)) dupTailRe)"
  by (simp add: dupSuffixRe_def dupTailRe_def js_def)

lemma strip_by_greedy_tail:
  "stripWpDuplicateSuffix slug =
     (case greedy_tail slug of
        None \<Rightarrow> slug
      | Some t \<Rightarrow> if decimal (tl t) < 2 \<or> 99 < decimal (tl t) then slug
                  else take (length slug - length t) slug)"
proof -
  have m: "re_match False False dupSuffixRe slug =
     map_option (\<lambda>t. cap_set 0 slug (cap_set 2 (tl t) (cap_set 1 (take (length slug - length t) slug) [])))
       (greedy_tail slug)"
    unfolding dupSuffixRe_unfold match_bol
    by (simp add: rmatch_simps rmatch_star_greedy star_tail split: option.split)
  show ?thesis
    unfolding stripWpDuplicateSuffix_def m
    by (simp add: cap_def cap_set_def split: option.split)
qed


lemma decimal_two_digits:
  "list_all is_digit ds \<Longrightarrow> length ds = 1 \<or> length ds = 2 \<Longrightarrow> decimal ds \<le> 99"
proof -
  assume d: "list_all is_digit ds" and l: "length ds = 1 \<or> length ds = 2"
  from l consider x where "ds = [x]" | x y where "ds = [x, y]"
    by (cases ds; cases "tl ds"; cases "tl (tl ds)") auto
  then show ?thesis
    using d by cases (auto simp: decimal_def is_digit_def)
qed

text \<open>
  Claim C1 fails as stated: the pattern's first group may be empty, and nothing checks
  the base slug, so \<^verbatim>\<open>"-2"\<close> is stripped to the empty string.
\<close>

theorem stripWpDuplicateSuffix_empty_base:
  "stripWpDuplicateSuffix (js ''-2'') = [] \<and> stripWpDuplicateSuffix (js ''-2'') \<noteq> js ''-2''"
  by (simp add: strip_by_greedy_tail js_def decimal_def is_line_terminator_def is_digit_def)

text \<open>
  Claim C1, amended.  A slug that is a base free of line terminators (possibly empty),
  a hyphen and one or two digits whose value \<open>n\<close> has \<open>2 \<le> n\<close> (so \<open>2 \<le> n \<le> 99\<close>)
  is stripped to the base; every other slug is returned unchanged.  The five examples of
  the specification hold.  The copy in the CSV sync script does the same to the trimmed
  slug.
\<close>

theorem stripWpDuplicateSuffix_spec:
  "(list_all (\<lambda>ch. \<not> is_line_terminator ch) base \<and> list_all is_digit ds \<and>
      (length ds = 1 \<or> length ds = 2) \<and> 2 \<le> decimal ds
      \<longrightarrow> stripWpDuplicateSuffix (base @ js ''-'' @ ds) = base) \<and>
   ((\<nexists>b d. slug = b @ js ''-'' @ d \<and> list_all (\<lambda>ch. \<not> is_line_terminator ch) b \<and>
        list_all is_digit d \<and> (length d = 1 \<or> length d = 2) \<and> 2 \<le> decimal d \<and> decimal d \<le> 99)
      \<longrightarrow> stripWpDuplicateSuffix slug = slug) \<and>
   stripWpDuplicateSuffix (js ''project-2'') = js ''project'' \<and>
   stripWpDuplicateSuffix (js ''project-99'') = js ''project'' \<and>
   stripWpDuplicateSuffix (js ''project-1'') = js ''project-1'' \<and>
   stripWpDuplicateSuffix (js ''project-100'') = js ''project-100'' \<and>
   stripWpDuplicateSuffix (js ''project'') = js ''project'' \<and>
   stripWpDuplicateSuffix_csv slug = stripWpDuplicateSuffix (trim slug)"
proof (intro conjI impI)
  assume a: "list_all (\<lambda>ch. \<not> is_line_terminator ch) base \<and> list_all is_digit ds \<and>
      (length ds = 1 \<or> length ds = 2) \<and> 2 \<le> decimal ds"
  then have t: "is_dup_tail (45 # ds)" by (auto simp: is_dup_tail_iff)
  have g: "greedy_tail (base @ 45 # ds) = Some (45 # ds)"
    using a t by (simp add: greedy_tail_complete)
  have "decimal ds \<le> 99" using a by (simp add: decimal_two_digits)
  with a g show "stripWpDuplicateSuffix (base @ js ''-'' @ ds) = base"
    by (simp add: strip_by_greedy_tail js_def)
next
  assume n: "\<nexists>b d. slug = b @ js ''-'' @ d \<and> list_all (\<lambda>ch. \<not> is_line_terminator ch) b \<and>
        list_all is_digit d \<and> (length d = 1 \<or> length d = 2) \<and> 2 \<le> decimal d \<and> decimal d \<le> 99"
  show "stripWpDuplicateSuffix slug = slug"
  proof (cases "greedy_tail slug")
    case None
    then show ?thesis by (simp add: strip_by_greedy_tail)
  next
    case (Some t)
    from greedy_tail_sound[OF Some] obtain u where
      u: "slug = u @ t" "list_all (\<lambda>ch. \<not> is_line_terminator ch) u" "is_dup_tail t" by blast
    from u(3) obtain d where d: "t = 45 # d" "list_all is_digit d" "length d = 1 \<or> length d = 2"
      by (auto simp: is_dup_tail_iff)
    have "\<not> (2 \<le> decimal d \<and> decimal d \<le> 99)"
      using n u d by (auto simp: js_def)
    with Some d show ?thesis by (auto simp: strip_by_greedy_tail)
  qed
next
  show "stripWpDuplicateSuffix_csv slug = stripWpDuplicateSuffix (trim slug)"
    by (simp add: stripWpDuplicateSuffix_csv_def stripWpDuplicateSuffix_def Let_def)
qed (simp_all add: strip_by_greedy_tail js_def decimal_def is_line_terminator_def is_digit_def)

theorem stripWpDuplicateSuffix_spec_witness:
  "stripWpDuplicateSuffix (js ''name-17'') = js ''name'' \<and>
   stripWpDuplicateSuffix (js ''section'') = js ''section''"
proof -
  have h1: "list_all (\<lambda>ch. \<not> is_line_terminator ch) (js ''name'') \<and> list_all is_digit (js ''17'') \<and>
      (length (js ''17'') = 1 \<or> length (js ''17'') = 2) \<and> 2 \<le> decimal (js ''17'')"
    by (simp add: js_def is_line_terminator_def is_digit_def decimal_def)
  have h2: "\<nexists>b d. js ''section'' = b @ js ''-'' @ d \<and> list_all (\<lambda>ch. \<not> is_line_terminator ch) b \<and>
        list_all is_digit d \<and> (length d = 1 \<or> length d = 2) \<and> 2 \<le> decimal d \<and> decimal d \<le> 99"
  proof
    assume "\<exists>b d. js ''section'' = b @ js ''-'' @ d \<and> list_all (\<lambda>ch. \<not> is_line_terminator ch) b \<and>
        list_all is_digit d \<and> (length d = 1 \<or> length d = 2) \<and> 2 \<le> decimal d \<and> decimal d \<le> 99"
    then obtain b d where "js ''section'' = b @ js ''-'' @ d" by blast
    then have "45 \<in> set (js ''section'')" by (simp add: js_def)
    then show False by (simp add: js_def)
  qed
  from stripWpDuplicateSuffix_spec[of "js ''name''" "js ''17''" "js ''section''"] h1 h2
  show ?thesis by (simp add: js_def)
qed

subsection \<open>Choosing the survivor of a group of duplicate slugs\<close>

text \<open>
  \<^verbatim>\<open>pickPreferredBySlug\<close> and \<^verbatim>\<open>dedupeBySlug\<close> work on any record with a \<^verbatim>\<open>slug\<close>;
  they also read its \<^verbatim>\<open>date\<close> and \<^verbatim>\<open>id\<close>.  \<open>date_ms r\<close> is \<^verbatim>\<open>Date.parse(r.date)\<close>
  when \<^verbatim>\<open>r.date\<close> is truthy and parses to a finite time stamp, else \<open>None\<close> (the
  source's \<^verbatim>\<open>NaN\<close>); \<open>id_num r\<close> is \<^verbatim>\<open>Number(r.id)\<close> when that is finite, else \<open>None\<close>.
  \<open>publishDate_ms r\<close> is the time stamp of \<^verbatim>\<open>r.publishDate\<close>, which neither function
  reads, and \<open>body\<close> stands for the rest of the record.

  \<^verbatim>\<open>dedupeBySlug\<close> is called in two places, on the results of \<^verbatim>\<open>transformWork\<close> and of
  \<^verbatim>\<open>transformInsight\<close>.  Both make records with \<^verbatim>\<open>id\<close>, \<^verbatim>\<open>slug\<close> and \<^verbatim>\<open>publishDate\<close> and
  without a property \<^verbatim>\<open>date\<close>: for them \<open>date_ms\<close> is \<open>None\<close>.
\<close>

record 'a item =
  slug :: jsstring
  date_ms :: "int option"
  id_num :: "int option"
  publishDate_ms :: "int option"
  body :: 'a

definition pickPreferredBySlug :: "'a item \<Rightarrow> 'a item \<Rightarrow> 'a item" where
  "pickPreferredBySlug a b =
     (let aIsDup = isWpDuplicateSlug (slug a); bIsDup = isWpDuplicateSlug (slug b) in
      if aIsDup \<noteq> bIsDup then (if aIsDup then b else a)
      else
        (case (date_ms a, date_ms b) of
           (Some aDate, Some bDate) \<Rightarrow>
             if aDate \<noteq> bDate then (if aDate > bDate then a else b)
             else (case (id_num a, id_num b) of
                     (Some aId, Some bId) \<Rightarrow>
                       if aId \<noteq> bId then (if aId > bId then a else b) else a
                   | _ \<Rightarrow> a)
         | _ \<Rightarrow>
             (case (id_num a, id_num b) of
                (Some aId, Some bId) \<Rightarrow>
                  if aId \<noteq> bId then (if aId > bId then a else b) else a
              | _ \<Rightarrow> a)))"

text \<open>
  The \<^verbatim>\<open>Map\<close> keeps its keys in the order of their first insertion; \<^verbatim>\<open>map.set\<close> on a
  key it has replaces the value in place.
\<close>

fun map_set :: "'k \<Rightarrow> 'v \<Rightarrow> ('k \<times> 'v) list \<Rightarrow> ('k \<times> 'v) list" where
  "map_set k v [] = [(k, v)]"
| "map_set k v ((k', v') # m) = (if k' = k then (k, v) # m else (k', v') # map_set k v m)"

fun dedupe_loop :: "'a item list \<Rightarrow> (jsstring \<times> 'a item) list \<Rightarrow> (jsstring \<times> 'a item) list" where
  "dedupe_loop [] m = m"
| "dedupe_loop (item # items) m =
     (let key = stripWpDuplicateSuffix (slug item) in
      case map_of m key of
        None \<Rightarrow> dedupe_loop items (map_set key item m)
      | Some existing \<Rightarrow> dedupe_loop items (map_set key (pickPreferredBySlug existing item) m))"

definition dedupeBySlug :: "'a item list \<Rightarrow> 'a item list" where
  "dedupeBySlug items = map snd (dedupe_loop items [])"

text \<open>
  The order \<^verbatim>\<open>pickPreferredBySlug\<close> applies to two records without a \<^verbatim>\<open>date\<close>:
  \<open>preferred s x\<close> says that \<open>s\<close> is at least as good as \<open>x\<close>: a slug without duplicate
  suffix first, then the higher id.  \<open>post_record\<close> holds of a record as the two
  transforms make it from a post: no \<^verbatim>\<open>date\<close>, a numeric \<^verbatim>\<open>id\<close>.
\<close>

definition preferred :: "'a item \<Rightarrow> 'a item \<Rightarrow> bool" where
  "preferred s x =
     ((\<not> isWpDuplicateSlug (slug s) \<and> isWpDuplicateSlug (slug x)) \<or>
      (isWpDuplicateSlug (slug s) = isWpDuplicateSlug (slug x) \<and>
       the (id_num x) \<le> the (id_num s)))"

definition post_record :: "'a item \<Rightarrow> bool" where
  "post_record x = (date_ms x = None \<and> id_num x \<noteq> None)"

text \<open>The base slug of a record: the key under which \<^verbatim>\<open>dedupeBySlug\<close> files it.\<close>

definition base :: "'a item \<Rightarrow> jsstring" where
  "base x = stripWpDuplicateSuffix (slug x)"

lemma pick_cases: "pickPreferredBySlug a b = a \<or> pickPreferredBySlug a b = b"
  by (auto simp: pickPreferredBySlug_def Let_def split: option.splits)

lemma pick_dup:
  "isWpDuplicateSlug (slug (pickPreferredBySlug a b)) \<Longrightarrow>
     isWpDuplicateSlug (slug a) \<and> isWpDuplicateSlug (slug b)"
  by (auto simp: pickPreferredBySlug_def Let_def split: option.splits if_splits)

lemma pick_preferred:
  "post_record a \<Longrightarrow> post_record b \<Longrightarrow>
     preferred (pickPreferredBySlug a b) a \<and> preferred (pickPreferredBySlug a b) b"
  by (auto simp: pickPreferredBySlug_def preferred_def post_record_def Let_def split: if_splits)

lemma preferred_trans: "preferred s y \<Longrightarrow> preferred y x \<Longrightarrow> preferred s x"
  by (auto simp: preferred_def)

lemma preferred_refl: "preferred x x"
  by (simp add: preferred_def)

lemma map_of_map_set: "map_of (map_set k v m) = (map_of m)(k \<mapsto> v)"
  by (induction m) (auto simp: fun_eq_iff)

lemma keys_map_set:
  "map fst (map_set k v m) = (if k \<in> fst ` set m then map fst m else map fst m @ [k])"
  by (induction m) (force simp: image_iff)+

lemma set_map_set:
  "set (map_set k v m) \<subseteq> insert (k, v) (set m)"
  by (induction m) (auto split: if_splits)

lemma set_map_set_other:
  "(k', v') \<in> set (map_set k v m) \<Longrightarrow> k' \<noteq> k \<Longrightarrow> (k', v') \<in> set m"
  by (induction m) (auto split: if_splits)

lemma set_map_set_same:
  "distinct (map fst m) \<Longrightarrow> (k, v') \<in> set (map_set k v m) \<Longrightarrow> v' = v"
  by (induction m) (force split: if_splits simp: image_iff)+

definition dedupe_inv :: "'a item set \<Rightarrow> (jsstring \<times> 'a item) list \<Rightarrow> 'a item list \<Rightarrow> bool" where
  "dedupe_inv A m seen =
     (distinct (map fst m) \<and>
      (\<forall>k v. (k, v) \<in> set m \<longrightarrow> v \<in> set seen \<and> base v = k) \<and>
      (\<forall>x \<in> set seen. base x \<in> fst ` set m) \<and>
      (\<forall>k v. (k, v) \<in> set m \<longrightarrow> (\<forall>x \<in> set seen. base x = k \<longrightarrow>
          (isWpDuplicateSlug (slug v) \<longrightarrow> isWpDuplicateSlug (slug x)) \<and>
          ((\<forall>y \<in> A. base y = k \<longrightarrow> post_record y) \<longrightarrow> preferred v x))))"

lemma dedupe_step_inv:
  assumes inv: "dedupe_inv A m seen" and sub: "set seen \<subseteq> A" and it: "item \<in> A"
  shows "dedupe_inv A
           (case map_of m (base item) of
              None \<Rightarrow> map_set (base item) item m
            | Some existing \<Rightarrow> map_set (base item) (pickPreferredBySlug existing item) m)
           (seen @ [item])"
proof (cases "map_of m (base item)")
  case None
  then have notin: "base item \<notin> fst ` set m" by (simp add: map_of_eq_None_iff)
  have nosee: "\<forall>x \<in> set seen. base x \<noteq> base item"
    using inv notin unfolding dedupe_inv_def by metis
  let ?m = "map_set (base item) item m"
  have 1: "distinct (map fst ?m)" using inv notin by (simp add: keys_map_set dedupe_inv_def)
  have 2: "\<forall>k v. (k, v) \<in> set ?m \<longrightarrow> v \<in> set (seen @ [item]) \<and> base v = k"
    using inv set_map_set[of "base item" item m] unfolding dedupe_inv_def by auto
  have 3: "\<forall>x \<in> set (seen @ [item]). base x \<in> fst ` set ?m"
    using inv notin by (auto simp: dedupe_inv_def keys_map_set simp flip: set_map)
  have 4: "\<forall>k v. (k, v) \<in> set ?m \<longrightarrow> (\<forall>x \<in> set (seen @ [item]). base x = k \<longrightarrow>
          (isWpDuplicateSlug (slug v) \<longrightarrow> isWpDuplicateSlug (slug x)) \<and>
          ((\<forall>y \<in> A. base y = k \<longrightarrow> post_record y) \<longrightarrow> preferred v x))"
  proof (intro allI impI ballI)
    fix k v x
    assume kv: "(k, v) \<in> set ?m" and x: "x \<in> set (seen @ [item])" and bx: "base x = k"
    show "(isWpDuplicateSlug (slug v) \<longrightarrow> isWpDuplicateSlug (slug x)) \<and>
          ((\<forall>y \<in> A. base y = k \<longrightarrow> post_record y) \<longrightarrow> preferred v x)"
    proof (cases "k = base item")
      case True
      have "(k, v) \<in> insert (base item, item) (set m)"
        using kv set_map_set[of "base item" item m] by blast
      with True notin have "v = item" by (force simp: image_iff)
      moreover from True bx nosee x have "x = item" by auto
      ultimately show ?thesis by (simp add: preferred_refl)
    next
      case False
      with kv have "(k, v) \<in> set m" by (auto dest: set_map_set_other)
      moreover from False bx x have "x \<in> set seen" by auto
      ultimately show ?thesis using inv bx by (fastforce simp: dedupe_inv_def)
    qed
  qed
  show ?thesis using None 1 2 3 4 unfolding dedupe_inv_def by simp
next
  case (Some existing)
  then have ex: "(base item, existing) \<in> set m" by (simp add: map_of_SomeD)
  then have inm: "base item \<in> fst ` set m" by (force simp: image_iff)
  have exseen: "existing \<in> set seen" "base existing = base item"
    using inv ex by (auto simp: dedupe_inv_def)
  let ?p = "pickPreferredBySlug existing item"
  let ?m = "map_set (base item) ?p m"
  have dm: "distinct (map fst m)" using inv by (simp add: dedupe_inv_def)
  have pc: "?p = existing \<or> ?p = item" by (rule pick_cases)
  have 1: "distinct (map fst ?m)" using dm inm by (simp add: keys_map_set)
  have 2: "\<forall>k v. (k, v) \<in> set ?m \<longrightarrow> v \<in> set (seen @ [item]) \<and> base v = k"
  proof (intro allI impI)
    fix k v assume kv: "(k, v) \<in> set ?m"
    show "v \<in> set (seen @ [item]) \<and> base v = k"
    proof (cases "k = base item")
      case True
      with kv dm have "v = ?p" by (auto dest: set_map_set_same)
      with pc exseen True show ?thesis by auto
    next
      case False
      with kv have "(k, v) \<in> set m" by (auto dest: set_map_set_other)
      with inv show ?thesis by (auto simp: dedupe_inv_def)
    qed
  qed
  have 3: "\<forall>x \<in> set (seen @ [item]). base x \<in> fst ` set ?m"
    using inv inm by (auto simp: dedupe_inv_def keys_map_set simp flip: set_map)
  have 4: "\<forall>k v. (k, v) \<in> set ?m \<longrightarrow> (\<forall>x \<in> set (seen @ [item]). base x = k \<longrightarrow>
          (isWpDuplicateSlug (slug v) \<longrightarrow> isWpDuplicateSlug (slug x)) \<and>
          ((\<forall>y \<in> A. base y = k \<longrightarrow> post_record y) \<longrightarrow> preferred v x))"
  proof (intro allI impI ballI)
    fix k v x
    assume kv: "(k, v) \<in> set ?m" and x: "x \<in> set (seen @ [item])" and bx: "base x = k"
    show "(isWpDuplicateSlug (slug v) \<longrightarrow> isWpDuplicateSlug (slug x)) \<and>
          ((\<forall>y \<in> A. base y = k \<longrightarrow> post_record y) \<longrightarrow> preferred v x)"
    proof (cases "k = base item")
      case True
      with kv dm have v: "v = ?p" by (auto dest: set_map_set_same)
      have old: "x \<in> set seen \<Longrightarrow> (isWpDuplicateSlug (slug existing) \<longrightarrow> isWpDuplicateSlug (slug x)) \<and>
          ((\<forall>y \<in> A. base y = k \<longrightarrow> post_record y) \<longrightarrow> preferred existing x)"
        using inv ex bx True by (fastforce simp: dedupe_inv_def)
      show ?thesis
      proof (intro conjI impI)
        assume "isWpDuplicateSlug (slug v)"
        with v have "isWpDuplicateSlug (slug existing) \<and> isWpDuplicateSlug (slug item)"
          by (auto dest: pick_dup)
        with old x show "isWpDuplicateSlug (slug x)" by auto
      next
        assume c: "\<forall>y \<in> A. base y = k \<longrightarrow> post_record y"
        have ce: "post_record existing" using c exseen sub bx True by auto
        have ci: "post_record item" using c it bx True by auto
        from pick_preferred[OF ce ci] have pp: "preferred ?p existing" "preferred ?p item" by auto
        show "preferred v x"
        proof (cases "x \<in> set seen")
          case True
          with old c have "preferred existing x" by simp
          with pp v show ?thesis by (auto intro: preferred_trans)
        next
          case False
          with x have "x = item" by simp
          with pp v show ?thesis by simp
        qed
      qed
    next
      case False
      with kv have "(k, v) \<in> set m" by (auto dest: set_map_set_other)
      moreover from False bx x have "x \<in> set seen" by auto
      ultimately show ?thesis using inv bx by (fastforce simp: dedupe_inv_def)
    qed
  qed
  show ?thesis using Some 1 2 3 4 unfolding dedupe_inv_def by simp
qed

lemma dedupe_loop_inv:
  "dedupe_inv A m seen \<Longrightarrow> set seen \<subseteq> A \<Longrightarrow> set items \<subseteq> A \<Longrightarrow>
     dedupe_inv A (dedupe_loop items m) (seen @ items)"
proof (induction items arbitrary: m seen)
  case Nil
  then show ?case by simp
next
  case (Cons item items)
  have it: "item \<in> A" using Cons.prems by simp
  note st = dedupe_step_inv[OF Cons.prems(1) Cons.prems(2) it]
  have "dedupe_inv A (dedupe_loop items
           (case map_of m (base item) of
              None \<Rightarrow> map_set (base item) item m
            | Some existing \<Rightarrow> map_set (base item) (pickPreferredBySlug existing item) m))
           ((seen @ [item]) @ items)"
    using Cons.prems by (intro Cons.IH[OF st]) auto
  then show ?case by (simp add: Let_def base_def split: option.splits)
qed

lemma dedupe_inv_final: "dedupe_inv (set items) (dedupe_loop items []) items"
  using dedupe_loop_inv[of "set items" "[]" "[]" items] by (simp add: dedupe_inv_def)


lemmas slug_eval = strip_by_greedy_tail isWpDuplicateSlug_def js_def decimal_def
  is_line_terminator_def is_digit_def

text \<open>
  What \<^verbatim>\<open>dedupeBySlug\<close> does.  In the list it returns every base slug of the input
  appears exactly once and every record is a record of the input.  The survivor of a
  group carries a duplicate suffix only if every record of the group does.  When the
  records of the group are as the transforms make them, the survivor is best in its
  group in the order: slug without duplicate suffix, then highest id; their publish
  dates play no part.
\<close>

lemma dedupeBySlug_survivors:
  "distinct (map base (dedupeBySlug items)) \<and>
   set (dedupeBySlug items) \<subseteq> set items \<and>
   base ` set (dedupeBySlug items) = base ` set items \<and>
   (\<forall>s \<in> set (dedupeBySlug items). \<forall>x \<in> set items. base x = base s \<longrightarrow>
      (isWpDuplicateSlug (slug s) \<longrightarrow> isWpDuplicateSlug (slug x)) \<and>
      ((\<forall>y \<in> set items. base y = base s \<longrightarrow> post_record y) \<longrightarrow> preferred s x))"
proof -
  let ?m = "dedupe_loop items []"
  note inv = dedupe_inv_final[of items, unfolded dedupe_inv_def]
  have keys: "\<And>k v. (k, v) \<in> set ?m \<Longrightarrow> v \<in> set items \<and> base v = k"
    using inv by blast
  have "\<forall>p \<in> set ?m. base (snd p) = fst p"
  proof
    fix p assume "p \<in> set ?m"
    then have "(fst p, snd p) \<in> set ?m" by simp
    from keys[OF this] show "base (snd p) = fst p" by simp
  qed
  then have eq: "map base (map snd ?m) = map fst ?m" by simp
  have "distinct (map fst ?m)" using inv by blast
  then have 1: "distinct (map base (dedupeBySlug items))"
    unfolding dedupeBySlug_def eq .
  have 2: "set (dedupeBySlug items) \<subseteq> set items"
    using keys by (auto simp: dedupeBySlug_def)
  have 3: "base ` set (dedupeBySlug items) = base ` set items"
  proof
    show "base ` set (dedupeBySlug items) \<subseteq> base ` set items" using 2 by blast
    show "base ` set items \<subseteq> base ` set (dedupeBySlug items)"
    proof
      fix b assume "b \<in> base ` set items"
      then obtain x where x: "x \<in> set items" "b = base x" by blast
      with inv have "base x \<in> fst ` set ?m" by blast
      then obtain v where "(base x, v) \<in> set ?m" by force
      with keys[OF this] x show "b \<in> base ` set (dedupeBySlug items)"
        by (force simp: dedupeBySlug_def image_iff)
    qed
  qed
  have 4: "\<forall>s \<in> set (dedupeBySlug items). \<forall>x \<in> set items. base x = base s \<longrightarrow>
      (isWpDuplicateSlug (slug s) \<longrightarrow> isWpDuplicateSlug (slug x)) \<and>
      ((\<forall>y \<in> set items. base y = base s \<longrightarrow> post_record y) \<longrightarrow> preferred s x)"
  proof (intro ballI impI)
    fix s x assume s: "s \<in> set (dedupeBySlug items)" and x: "x \<in> set items" and b: "base x = base s"
    from s obtain k where k: "(k, s) \<in> set ?m" by (auto simp: dedupeBySlug_def)
    with keys have ks: "base s = k" by blast
    from inv k x b ks show "(isWpDuplicateSlug (slug s) \<longrightarrow> isWpDuplicateSlug (slug x)) \<and>
      ((\<forall>y \<in> set items. base y = base s \<longrightarrow> post_record y) \<longrightarrow> preferred s x)"
      by blast
  qed
  from 1 2 3 4 show ?thesis by blast
qed

text \<open>
  Claim C3 on two works as \<^verbatim>\<open>transformWork\<close> makes them.  Both slugs carry a duplicate
  suffix and share the base \<^verbatim>\<open>a\<close>; the second was published later (time stamp 2000
  against 1000) and has the lower id (3 against 5).  The first survives, the one
  published earlier: \<^verbatim>\<open>pickPreferredBySlug\<close> compares the property \<^verbatim>\<open>date\<close>, which
  these records do not have (their date is \<^verbatim>\<open>publishDate\<close>), finds no date on either
  side and decides by the ids.
\<close>

theorem dedupeBySlug_ignores_publishDate:
  "dedupeBySlug
     [\<lparr>slug = js ''a-2'', date_ms = None, id_num = Some 5, publishDate_ms = Some 1000, body = ()\<rparr>,
      \<lparr>slug = js ''a-3'', date_ms = None, id_num = Some 3, publishDate_ms = Some 2000, body = ()\<rparr>] =
     [\<lparr>slug = js ''a-2'', date_ms = None, id_num = Some 5, publishDate_ms = Some 1000, body = ()\<rparr>]"
  by (simp add: dedupeBySlug_def pickPreferredBySlug_def Let_def slug_eval)

section \<open>JavaScript values\<close>

text \<open>
  The normalizers take values decoded from JSON, typed \<^verbatim>\<open>any\<close>.  A number is a double:
  not-a-number, an infinity (\<open>True\<close>: positive) or a finite value, a rational; the two
  zeros are one value, which \<^verbatim>\<open>===\<close> and truthiness do not tell apart.  An object is
  the list of its own properties in the order of their insertion (that integer-like
  keys come first in JavaScript is not modelled).
\<close>

datatype jsnumber = NotANumber | Infinity bool | Num rat

datatype jsval =
    JUndefined
  | JNull
  | JBool bool
  | JNumber jsnumber
  | JString jsstring
  | JArray "jsval list"
  | JObject "(jsstring \<times> jsval) list"

text \<open>\<^verbatim>\<open>Boolean(v)\<close>, also the test of \<^verbatim>\<open>!v\<close> and \<^verbatim>\<open>filter(Boolean)\<close>.\<close>

fun truthy :: "jsval \<Rightarrow> bool" where
  "truthy JUndefined = False"
| "truthy JNull = False"
| "truthy (JBool b) = b"
| "truthy (JNumber x) = (x \<noteq> NotANumber \<and> x \<noteq> Num 0)"
| "truthy (JString s) = (s \<noteq> [])"
| "truthy (JArray xs) = True"
| "truthy (JObject ps) = True"

fun is_array :: "jsval \<Rightarrow> bool" where
  "is_array (JArray xs) = True"
| "is_array v = False"

text \<open>\<^verbatim>\<open>typeof v === 'object'\<close>.\<close>

fun typeof_object :: "jsval \<Rightarrow> bool" where
  "typeof_object JNull = True"
| "typeof_object (JArray xs) = True"
| "typeof_object (JObject ps) = True"
| "typeof_object v = False"

text \<open>
  \<^verbatim>\<open>v.name\<close> and \<^verbatim>\<open>Object.prototype.hasOwnProperty.call(v, name)\<close> for the names read
  below (\<^verbatim>\<open>id\<close>, \<^verbatim>\<open>attributes\<close>, \<^verbatim>\<open>data\<close>): none of them is an index or \<^verbatim>\<open>length\<close>, so only
  an object can have one.  The normalizers read properties of truthy values only.
\<close>

fun get_prop :: "jsval \<Rightarrow> jsstring \<Rightarrow> jsval" where
  "get_prop (JObject ps) name = (case map_of ps name of None \<Rightarrow> JUndefined | Some v \<Rightarrow> v)"
| "get_prop v name = JUndefined"

fun has_own :: "jsval \<Rightarrow> jsstring \<Rightarrow> bool" where
  "has_own (JObject ps) name = (map_of ps name \<noteq> None)"
| "has_own v name = False"

text \<open>The decimal text of an array index, the key under which a spread copies an element.\<close>

fun index_key :: "nat \<Rightarrow> jsstring" where
  "index_key i = (if i < 10 then [48 + i] else index_key (i div 10) @ [48 + i mod 10])"

declare index_key.simps [simp del]

text \<open>The own enumerable properties \<^verbatim>\<open>{...v}\<close> copies.\<close>

fun own_props :: "jsval \<Rightarrow> (jsstring \<times> jsval) list" where
  "own_props (JObject ps) = ps"
| "own_props (JArray xs) = zip (map index_key [0..<length xs]) xs"
| "own_props (JString s) = zip (map index_key [0..<length s]) (map (\<lambda>ch. JString [ch]) s)"
| "own_props v = []"

text \<open>\<^verbatim>\<open>{ ...ps, ...qs }\<close>: the properties of \<open>qs\<close> are set one by one on \<open>ps\<close>.\<close>

definition spread :: "(jsstring \<times> jsval) list \<Rightarrow> (jsstring \<times> jsval) list \<Rightarrow> (jsstring \<times> jsval) list" where
  "spread ps qs = foldl (\<lambda>m (k, v). map_set k v m) ps qs"

section \<open>Boolean parsers\<close>

text \<open>
  \<^verbatim>\<open>parseAcfBoolean\<close> of the frontend's WordPress client; \<^verbatim>\<open>parseBoolean\<close> of
  \<^verbatim>\<open>complete-migration.mjs\<close> has the same body.
\<close>

definition parseAcfBoolean :: "jsval \<Rightarrow> bool" where
  "parseAcfBoolean v =
     (if v = JBool True then True
      else if v = JBool False then False
      else if v = JNumber (Num 1) \<or> v = JString (js ''1'') then True
      else if v = JNumber (Num 0) \<or> v = JString (js ''0'') then False
      else if v = JString (js ''true'') then True
      else if v = JString (js ''false'') then False
      else if v = JString [] \<or> v = JNull \<or> v = JUndefined then False
      else truthy v)"

text \<open>
  \<^verbatim>\<open>parseBoolean(value: string)\<close> of the CSV parser (\<^verbatim>\<open>migration/src/parsers/csv.ts\<close>).
\<close>

definition parseBoolean :: "jsstring \<Rightarrow> bool" where
  "parseBoolean v =
     (if v = [] then False
      else (let normalized = trim (toLowerCase v) in
            normalized = js ''true'' \<or> normalized = js ''yes'' \<or> normalized = js ''1''))"

section \<open>Strapi media normalization (\<^verbatim>\<open>complete-migration.mjs\<close>)\<close>

definition normalizeStrapiMediaNode :: "jsval \<Rightarrow> jsval" where
  "normalizeStrapiMediaNode node =
     (if \<not> truthy node then JNull
      else if truthy (get_prop node (js ''attributes'')) \<and> typeof_object (get_prop node (js ''attributes''))
      then JObject (spread [(js ''id'', get_prop node (js ''id''))] (own_props (get_prop node (js ''attributes''))))
      else node)"

definition normalizeStrapiMedia :: "jsval \<Rightarrow> jsval" where
  "normalizeStrapiMedia v =
     (if \<not> truthy v then JNull
      else if is_array v then
        (case v of JArray xs \<Rightarrow> JArray (filter truthy (map normalizeStrapiMediaNode xs)) | _ \<Rightarrow> v)
      else if has_own v (js ''data'') then
        (let d = get_prop v (js ''data'') in
         if \<not> truthy d then JNull
         else if is_array d then
           (case d of JArray xs \<Rightarrow> JArray (filter truthy (map normalizeStrapiMediaNode xs)) | _ \<Rightarrow> d)
         else normalizeStrapiMediaNode d)
      else normalizeStrapiMediaNode v)"

subsection \<open>Properties of the boolean parsers\<close>

lemma js_nonempty_forms:
  "js ''true'' \<noteq> []" "js ''yes'' \<noteq> []" "js ''1'' \<noteq> []" "js ''false'' \<noteq> []" "js ''0'' \<noteq> []"
  by (simp_all add: js_def)

lemma trim_forms:
  "trim (js ''true'') = js ''true''" "trim (js ''yes'') = js ''yes''" "trim (js ''1'') = js ''1''"
  "trim (js ''false'') = js ''false''" "trim (js ''0'') = js ''0''"
  by (simp_all add: trim_def js_def is_white_space_def)

lemma forms_distinct:
  "js ''false'' \<noteq> js ''true''" "js ''false'' \<noteq> js ''yes''" "js ''false'' \<noteq> js ''1''"
  "js ''0'' \<noteq> js ''true''" "js ''0'' \<noteq> js ''yes''" "js ''0'' \<noteq> js ''1''"
  by (simp_all add: js_def)

text \<open>
  Claim C7 fails as stated for the ACF parser: it compares with the lower-case forms only
  and leaves every other string to \<^verbatim>\<open>Boolean(value)\<close>, so \<^verbatim>\<open>"FALSE"\<close> is true.
\<close>

theorem parseAcfBoolean_upper_false:
  "parseAcfBoolean (JString (js ''FALSE'')) = True"
  by (simp add: parseAcfBoolean_def js_def)

text \<open>
  Claim C7, amended.  The ACF parser maps \<^verbatim>\<open>true\<close>, \<^verbatim>\<open>1\<close>, \<^verbatim>\<open>'1'\<close>, \<^verbatim>\<open>'true'\<close> to true
  and \<^verbatim>\<open>false\<close>, \<^verbatim>\<open>0\<close>, \<^verbatim>\<open>'0'\<close>, \<^verbatim>\<open>'false'\<close>, the empty string, \<^verbatim>\<open>null\<close> and
  \<^verbatim>\<open>undefined\<close> to false; the string forms are matched exactly, and every other
  non-empty string (every other case variant of a true-form, and of a false-form too)
  yields true.  The CSV parser, which takes strings, is insensitive to case: every case
  variant of \<^verbatim>\<open>'true'\<close>, \<^verbatim>\<open>'yes'\<close> and \<^verbatim>\<open>'1'\<close> yields true, every case variant of
  \<^verbatim>\<open>'false'\<close> and \<^verbatim>\<open>'0'\<close> and the empty string yield false.  Both parsers map
  \<^verbatim>\<open>"Yes"\<close> and \<^verbatim>\<open>"TRUE"\<close> to true and \<^verbatim>\<open>"0"\<close> and \<^verbatim>\<open>""\<close> to false.
\<close>

theorem boolean_parsers_spec:
  "parseAcfBoolean (JBool True) \<and> parseAcfBoolean (JNumber (Num 1)) \<and>
   parseAcfBoolean (JString (js ''1'')) \<and> parseAcfBoolean (JString (js ''true'')) \<and>
   \<not> parseAcfBoolean (JBool False) \<and> \<not> parseAcfBoolean (JNumber (Num 0)) \<and>
   \<not> parseAcfBoolean (JString (js ''0'')) \<and> \<not> parseAcfBoolean (JString (js ''false'')) \<and>
   \<not> parseAcfBoolean (JString (js '''')) \<and> \<not> parseAcfBoolean JNull \<and>
   \<not> parseAcfBoolean JUndefined \<and>
   (s \<noteq> [] \<and> s \<noteq> js ''0'' \<and> s \<noteq> js ''false'' \<longrightarrow> parseAcfBoolean (JString s)) \<and>
   (toLowerCase s = js ''true'' \<or> toLowerCase s = js ''yes'' \<or> toLowerCase s = js ''1''
      \<longrightarrow> parseBoolean s) \<and>
   (toLowerCase s = js ''false'' \<or> toLowerCase s = js ''0'' \<or> s = [] \<longrightarrow> \<not> parseBoolean s) \<and>
   parseBoolean (js ''Yes'') \<and> \<not> parseBoolean (js ''0'') \<and> \<not> parseBoolean (js '''') \<and>
   parseBoolean (js ''TRUE'') \<and>
   parseAcfBoolean (JString (js ''Yes'')) \<and> parseAcfBoolean (JString (js ''TRUE''))"
proof -
  have acf: "parseAcfBoolean (JBool True) \<and> parseAcfBoolean (JNumber (Num 1)) \<and>
   parseAcfBoolean (JString (js ''1'')) \<and> parseAcfBoolean (JString (js ''true'')) \<and>
   \<not> parseAcfBoolean (JBool False) \<and> \<not> parseAcfBoolean (JNumber (Num 0)) \<and>
   \<not> parseAcfBoolean (JString (js ''0'')) \<and> \<not> parseAcfBoolean (JString (js ''false'')) \<and>
   \<not> parseAcfBoolean (JString (js '''')) \<and> \<not> parseAcfBoolean JNull \<and>
   \<not> parseAcfBoolean JUndefined"
    by (simp add: parseAcfBoolean_def js_def)
  have other: "s \<noteq> [] \<and> s \<noteq> js ''0'' \<and> s \<noteq> js ''false'' \<longrightarrow> parseAcfBoolean (JString s)"
    by (simp add: parseAcfBoolean_def)
  have yes: "toLowerCase s = js ''true'' \<or> toLowerCase s = js ''yes'' \<or> toLowerCase s = js ''1''
      \<longrightarrow> parseBoolean s"
  proof
    assume a: "toLowerCase s = js ''true'' \<or> toLowerCase s = js ''yes'' \<or> toLowerCase s = js ''1''"
    then have "s \<noteq> []" by (auto simp: toLowerCase_def js_def)
    with a show "parseBoolean s" by (auto simp: parseBoolean_def Let_def trim_forms)
  qed
  have no: "toLowerCase s = js ''false'' \<or> toLowerCase s = js ''0'' \<or> s = [] \<longrightarrow> \<not> parseBoolean s"
    by (auto simp: parseBoolean_def Let_def trim_forms forms_distinct)
  have ex: "parseBoolean (js ''Yes'') \<and> \<not> parseBoolean (js ''0'') \<and> \<not> parseBoolean (js '''') \<and>
   parseBoolean (js ''TRUE'') \<and>
   parseAcfBoolean (JString (js ''Yes'')) \<and> parseAcfBoolean (JString (js ''TRUE''))"
    by (simp add: parseBoolean_def parseAcfBoolean_def Let_def js_def toLowerCase_def lower_char_def
                  trim_def is_white_space_def)
  from acf other yes no ex show ?thesis by blast
qed

theorem boolean_parsers_spec_witness:
  "parseAcfBoolean (JString (js ''False'')) \<and> parseBoolean (js ''tRuE'') \<and>
   \<not> parseBoolean (js ''False'')"
proof -
  have 1: "js ''False'' \<noteq> [] \<and> js ''False'' \<noteq> js ''0'' \<and> js ''False'' \<noteq> js ''false''"
    by (simp add: js_def)
  have 2: "toLowerCase (js ''tRuE'') = js ''true''"
    by (simp add: js_def toLowerCase_def lower_char_def)
  have 3: "toLowerCase (js ''False'') = js ''false''"
    by (simp add: js_def toLowerCase_def lower_char_def)
  from boolean_parsers_spec[of "js ''False''"] boolean_parsers_spec[of "js ''tRuE''"] 1 2 3
  show ?thesis by blast
qed

subsection \<open>Properties of the media normalization\<close>

lemma normalizeStrapiMediaNode_falsy: "\<not> truthy v \<Longrightarrow> normalizeStrapiMediaNode v = JNull"
  by (simp add: normalizeStrapiMediaNode_def)

text \<open>
  Claim C6.  A bare media object is an object without a \<^verbatim>\<open>data\<close> key of its own (one
  with such a key is a wrapper).  The bare object and any object that wraps it under
  \<^verbatim>\<open>data\<close> normalize to the same value, that of the node normalizer on the object.  An
  array of media objects and any object that wraps the array under \<^verbatim>\<open>data\<close> normalize to
  the same array: the normalized nodes in their order, without the falsy ones, so without
  \<^verbatim>\<open>null\<close>.
\<close>

theorem normalizeStrapiMedia_shapes:
  "(get_prop (JObject ps) (js ''data'') = media \<and> has_own (JObject ps) (js ''data'') \<and>
      \<not> is_array media \<and> \<not> has_own media (js ''data'')
      \<longrightarrow> normalizeStrapiMedia (JObject ps) = normalizeStrapiMedia media \<and>
          normalizeStrapiMedia media = normalizeStrapiMediaNode media) \<and>
   (get_prop (JObject ps) (js ''data'') = JArray xs \<and> has_own (JObject ps) (js ''data'')
      \<longrightarrow> normalizeStrapiMedia (JObject ps) = normalizeStrapiMedia (JArray xs)) \<and>
   normalizeStrapiMedia (JArray xs) = JArray (filter truthy (map normalizeStrapiMediaNode xs)) \<and>
   JNull \<notin> set (filter truthy (map normalizeStrapiMediaNode xs)) \<and>
   JUndefined \<notin> set (filter truthy (map normalizeStrapiMediaNode xs))"
proof (intro conjI impI)
  assume a: "get_prop (JObject ps) (js ''data'') = media \<and> has_own (JObject ps) (js ''data'') \<and>
      \<not> is_array media \<and> \<not> has_own media (js ''data'')"
  have bare: "normalizeStrapiMedia media = normalizeStrapiMediaNode media"
    using a by (simp add: normalizeStrapiMedia_def normalizeStrapiMediaNode_falsy)
  have "normalizeStrapiMedia (JObject ps) = normalizeStrapiMediaNode media"
    using a by (simp add: normalizeStrapiMedia_def Let_def normalizeStrapiMediaNode_falsy)
  with bare show "normalizeStrapiMedia (JObject ps) = normalizeStrapiMedia media" by simp
  from bare show "normalizeStrapiMedia media = normalizeStrapiMediaNode media" .
next
  assume "get_prop (JObject ps) (js ''data'') = JArray xs \<and> has_own (JObject ps) (js ''data'')"
  then show "normalizeStrapiMedia (JObject ps) = normalizeStrapiMedia (JArray xs)"
    by (simp add: normalizeStrapiMedia_def Let_def)
qed (auto simp: normalizeStrapiMedia_def)

theorem normalizeStrapiMedia_shapes_witness:
  "normalizeStrapiMedia
     (JObject [(js ''data'', JObject [(js ''id'', JNumber (Num 7)),
        (js ''attributes'', JObject [(js ''url'', JString (js ''/a.png''))])])]) =
   normalizeStrapiMedia (JObject [(js ''id'', JNumber (Num 7)),
        (js ''attributes'', JObject [(js ''url'', JString (js ''/a.png''))])]) \<and>
   normalizeStrapiMedia (JObject [(js ''id'', JNumber (Num 7)),
        (js ''attributes'', JObject [(js ''url'', JString (js ''/a.png''))])]) =
   JObject [(js ''id'', JNumber (Num 7)), (js ''url'', JString (js ''/a.png''))] \<and>
   normalizeStrapiMedia (JObject [(js ''data'', JArray [JNull, JObject [(js ''id'', JNumber (Num 7))]])]) =
   normalizeStrapiMedia (JArray [JNull, JObject [(js ''id'', JNumber (Num 7))]]) \<and>
   normalizeStrapiMedia (JArray [JNull, JObject [(js ''id'', JNumber (Num 7))]]) =
   JArray [JObject [(js ''id'', JNumber (Num 7))]]"
proof -
  let ?m = "JObject [(js ''id'', JNumber (Num 7)),
        (js ''attributes'', JObject [(js ''url'', JString (js ''/a.png''))])]"
  let ?xs = "[JNull, JObject [(js ''id'', JNumber (Num 7))]]"
  have h1: "get_prop (JObject [(js ''data'', ?m)]) (js ''data'') = ?m \<and>
      has_own (JObject [(js ''data'', ?m)]) (js ''data'') \<and>
      \<not> is_array ?m \<and> \<not> has_own ?m (js ''data'')"
    by (simp add: js_def)
  have h2: "get_prop (JObject [(js ''data'', JArray ?xs)]) (js ''data'') = JArray ?xs \<and>
      has_own (JObject [(js ''data'', JArray ?xs)]) (js ''data'')"
    by simp
  have n1: "normalizeStrapiMediaNode ?m =
      JObject [(js ''id'', JNumber (Num 7)), (js ''url'', JString (js ''/a.png''))]"
    by (simp add: normalizeStrapiMediaNode_def spread_def js_def)
  have n2: "filter truthy (map normalizeStrapiMediaNode ?xs) = [JObject [(js ''id'', JNumber (Num 7))]]"
    by (simp add: normalizeStrapiMediaNode_def js_def)
  from normalizeStrapiMedia_shapes[of "[(js ''data'', ?m)]" ?m ?xs]
       normalizeStrapiMedia_shapes[of "[(js ''data'', JArray ?xs)]" ?m ?xs] h1 h2 n1 n2
  show ?thesis by simp
qed

section \<open>Arithmetic on numbers\<close>

text \<open>
  A finite number is held as the rational it denotes.  An arithmetic operation gives the
  exact result rounded to the nearest double (binary64: 53 significant bits, exponents
  from \<open>-1022\<close> to \<open>1023\<close>, subnormal numbers below), a tie going to the even significand,
  and an infinity from \<open>2^1024 - 2^970\<close> on.
\<close>

fun floor_log2 :: "nat \<Rightarrow> nat" where
  "floor_log2 n = (if n < 2 then 0 else Suc (floor_log2 (n div 2)))"

declare floor_log2.simps [simp del]

definition pow2 :: "int \<Rightarrow> rat" where
  "pow2 e = (if 0 \<le> e then 2 ^ nat e else 1 / 2 ^ nat (- e))"

text \<open>The \<open>e\<close> with \<open>2^e \<le> a < 2^(e+1)\<close>, for a positive \<open>a\<close>.\<close>

definition binary_exponent :: "rat \<Rightarrow> int" where
  "binary_exponent a =
     (case quotient_of a of
        (p, q) \<Rightarrow>
          (let e0 = int (floor_log2 (nat p)) - int (floor_log2 (nat q))
           in if pow2 e0 \<le> a then e0 else e0 - 1))"

definition round_double :: "rat \<Rightarrow> jsnumber" where
  "round_double x =
     (if x = 0 then Num 0
      else
        (let a = \<bar>x\<bar>;
             e = max (binary_exponent a) (- 1022);
             ulp = pow2 (e - 52);
             f = \<lfloor>a / ulp\<rfloor>;
             rest = a / ulp - of_int f;
             n = (if rest < 1 / 2 then f
                  else if 1 / 2 < rest then f + 1
                  else if even f then f else f + 1);
             r = of_int n * ulp
         in if pow2 1024 \<le> r then Infinity (0 < x)
            else Num (if x < 0 then - r else r)))"

text \<open>\<^verbatim>\<open>x * y\<close>, \<^verbatim>\<open>x + y\<close>, \<^verbatim>\<open>x <= y\<close> and \<^verbatim>\<open>x === y\<close> on numbers.\<close>

fun js_mul :: "jsnumber \<Rightarrow> jsnumber \<Rightarrow> jsnumber" where
  "js_mul (Num a) (Num b) = round_double (a * b)"
| "js_mul (Infinity s) (Infinity t) = Infinity (s = t)"
| "js_mul (Infinity s) (Num b) = (if b = 0 then NotANumber else Infinity (s = (0 < b)))"
| "js_mul (Num a) (Infinity t) = (if a = 0 then NotANumber else Infinity ((0 < a) = t))"
| "js_mul NotANumber y = NotANumber"
| "js_mul x NotANumber = NotANumber"

fun js_add :: "jsnumber \<Rightarrow> jsnumber \<Rightarrow> jsnumber" where
  "js_add (Num a) (Num b) = round_double (a + b)"
| "js_add (Infinity s) (Infinity t) = (if s = t then Infinity s else NotANumber)"
| "js_add (Infinity s) (Num b) = Infinity s"
| "js_add (Num a) (Infinity t) = Infinity t"
| "js_add NotANumber y = NotANumber"
| "js_add x NotANumber = NotANumber"

fun js_le :: "jsnumber \<Rightarrow> jsnumber \<Rightarrow> bool" where
  "js_le (Num a) (Num b) = (a \<le> b)"
| "js_le (Infinity s) (Infinity t) = (if s then t else True)"
| "js_le (Infinity s) (Num b) = (\<not> s)"
| "js_le (Num a) (Infinity t) = t"
| "js_le NotANumber y = False"
| "js_le x NotANumber = False"

fun js_strict_eq :: "jsnumber \<Rightarrow> jsnumber \<Rightarrow> bool" where
  "js_strict_eq (Num a) (Num b) = (a = b)"
| "js_strict_eq (Infinity s) (Infinity t) = (s = t)"
| "js_strict_eq x y = False"

subsection \<open>Whole numbers are exact\<close>

lemma floor_log2_bounds:
  "0 < n \<Longrightarrow> 2 ^ floor_log2 n \<le> n \<and> n < 2 ^ Suc (floor_log2 n)"
proof (induction n rule: floor_log2.induct)
  case (1 n)
  show ?case
  proof (cases "n < 2")
    case True
    with "1.prems" have "n = 1" by simp
    then show ?thesis by (simp add: floor_log2.simps)
  next
    case False
    then have pos: "0 < n div 2" by simp
    from "1.IH"[OF False pos]
    have lo: "2 ^ floor_log2 (n div 2) \<le> n div 2" and hi: "n div 2 < 2 ^ Suc (floor_log2 (n div 2))"
      by simp_all
    have fl: "floor_log2 n = Suc (floor_log2 (n div 2))"
      using False by (subst floor_log2.simps) simp
    from lo have "2 * 2 ^ floor_log2 (n div 2) \<le> n" by linarith
    moreover from hi have "n < 2 * 2 ^ Suc (floor_log2 (n div 2))" by linarith
    ultimately show ?thesis by (simp add: fl)
  qed
qed

lemma pow2_pos: "0 < pow2 e"
  by (simp add: pow2_def)

lemma pow2_of_nat: "pow2 (int k) = 2 ^ k"
  by (simp add: pow2_def)

lemma pow2_minus: "pow2 (- int k) = 1 / 2 ^ k"
  by (simp add: pow2_def)

lemma round_double_exact:
  assumes pos: "0 < a" and e: "binary_exponent a = e" "- 1022 \<le> e"
    and whole: "a / pow2 (e - 52) = of_int M" and small: "a < pow2 1024"
  shows "round_double a = Num a"
proof -
  have mx: "max e (- 1022) = e" using e(2) by simp
  have prod: "of_int M * pow2 (e - 52) = a"
    using whole pow2_pos[of "e - 52"] by (simp add: field_simps)
  have ab: "\<bar>a\<bar> = a" using pos by simp
  have fl: "\<lfloor>(of_int M :: rat)\<rfloor> = M" by (rule floor_of_int)
  have ns: "\<not> pow2 1024 \<le> a" using small by simp
  have nz: "a \<noteq> 0" "\<not> a < 0" using pos by simp_all
  show ?thesis
    unfolding round_double_def Let_def ab e(1) mx whole fl
    by (simp add: prod ns nz)
qed

lemma round_double_of_nat:
  assumes "n \<le> 2 ^ 53"
  shows "round_double (of_nat n) = Num (of_nat n)"
proof (cases "n = 0")
  case True
  then show ?thesis by (simp add: round_double_def)
next
  case False
  then have pos: "0 < n" by simp
  define e where "e = floor_log2 n"
  from floor_log2_bounds[OF pos] have lo: "2 ^ e \<le> n" and hi: "n < 2 ^ Suc e"
    by (simp_all add: e_def)
  from lo assms have p53: "(2::nat) ^ e \<le> 2 ^ 53" by linarith
  have e53: "e \<le> 53" by (rule power_le_imp_le_exp[OF _ p53]) simp
  have lor: "(2::rat) ^ e \<le> of_nat n"
  proof -
    from lo have "(of_nat (2 ^ e) :: rat) \<le> of_nat n" by (simp only: of_nat_le_iff)
    then show ?thesis by simp
  qed
  have fl1: "floor_log2 (Suc 0) = 0" by (simp add: floor_log2.simps)
  have be: "binary_exponent (of_nat n) = int e"
    using lor by (simp add: binary_exponent_def e_def[symmetric] pow2_of_nat fl1)
  have small: "(of_nat n :: rat) < pow2 1024"
  proof -
    from assms have "(of_nat n :: rat) \<le> of_nat (2 ^ 53)" by (simp only: of_nat_le_iff)
    then have a: "(of_nat n :: rat) \<le> 2 ^ 53" by (simp only: of_nat_power of_nat_numeral)
    have b: "(2::rat) ^ 53 < 2 ^ 1024" by (rule power_strict_increasing) simp_all
    have c: "pow2 1024 = 2 ^ 1024" using pow2_of_nat[of 1024] by (simp only: of_nat_numeral)
    from a b show ?thesis unfolding c by (rule order_le_less_trans)
  qed
  have "\<exists>M. (of_nat n :: rat) / pow2 (int e - 52) = of_int M"
  proof (cases "e \<le> 52")
    case True
    then have eq: "int e - 52 = - int (52 - e)" by simp
    have ulp: "pow2 (int e - 52) = 1 / 2 ^ (52 - e)"
      unfolding eq by (rule pow2_minus)
    have "(of_nat n :: rat) / pow2 (int e - 52) = of_int (int (n * 2 ^ (52 - e)))"
      unfolding ulp by simp
    then show ?thesis ..
  next
    case False
    with e53 have e: "e = 53" by simp
    with lo assms have n: "n = 2 ^ 53" by simp
    have eq: "int e - 52 = int 1" by (simp add: e)
    have ulp: "pow2 (int e - 52) = 2" unfolding eq by (simp only: pow2_of_nat power_one_right)
    have "(of_nat n :: rat) / pow2 (int e - 52) = of_int (2 ^ 52)"
      unfolding ulp n by simp
    then show ?thesis ..
  qed
  then obtain M where whole: "(of_nat n :: rat) / pow2 (int e - 52) = of_int M" ..
  show ?thesis
    by (rule round_double_exact[OF _ be _ whole small]) (use pos in simp_all)
qed

section \<open>Bounded retry (migration/src/utils/retry.ts)\<close>

text \<open>
  \<^verbatim>\<open>retry(fn, {maxRetries = 3, delay = 1000, label})\<close> runs \<^verbatim>\<open>fn\<close> in a loop
  \<^verbatim>\<open>for (attempt = 1; attempt <= maxRetries; attempt++)\<close>.  The wrapped function is
  effectful, so it is modelled by the outcome of each of its invocations: \<open>fn k\<close> is what
  the \<open>k\<close>-th invocation (counted from 0) does, \<open>Inr v\<close> for a resolved promise and
  \<open>Inl e\<close> for a rejected one.  The loop threads the number of invocations made so far
  and the list of the delays handed to \<^verbatim>\<open>sleep\<close> so far (in milliseconds).
  \<^verbatim>\<open>maxRetries\<close> and \<^verbatim>\<open>delay\<close> are of type \<^verbatim>\<open>number\<close>, and so are the counter and the
  product \<^verbatim>\<open>delay * attempt\<close>.  The loop need not end (\<^verbatim>\<open>maxRetries\<close> can be infinite);
  \<open>None\<close> stands for a call that does not return.
\<close>

datatype 'e retry_error = Thrown 'e | Unreachable

record retry_options =
  maxRetries :: "jsnumber option"
  delay :: "jsnumber option"

record retry_effects =
  invocations :: nat
  sleeps :: "jsnumber list"

partial_function (option) retry_loop ::
  "(nat \<Rightarrow> 'e + 'a) \<Rightarrow> jsnumber \<Rightarrow> jsnumber \<Rightarrow> jsnumber \<Rightarrow> retry_effects \<Rightarrow>
   (('e retry_error + 'a) \<times> retry_effects) option"
where
  "retry_loop fn maxR dl attempt eff =
     (if js_le attempt maxR then
        (case fn (invocations eff) of
           Inr v \<Rightarrow> Some (Inr v, eff\<lparr>invocations := Suc (invocations eff)\<rparr>)
         | Inl err \<Rightarrow>
             (if js_strict_eq attempt maxR
              then Some (Inl (Thrown err), eff\<lparr>invocations := Suc (invocations eff)\<rparr>)
              else retry_loop fn maxR dl (js_add attempt (Num 1))
                     (eff\<lparr>invocations := Suc (invocations eff),
                          sleeps := sleeps eff @ [js_mul dl attempt]\<rparr>)))
      else Some (Inl Unreachable, eff))"

definition retry ::
  "(nat \<Rightarrow> 'e + 'a) \<Rightarrow> retry_options \<Rightarrow> (('e retry_error + 'a) \<times> retry_effects) option"
where
  "retry fn options =
     retry_loop fn
       (case maxRetries options of None \<Rightarrow> Num 3 | Some m \<Rightarrow> m)
       (case delay options of None \<Rightarrow> Num 1000 | Some d \<Rightarrow> d)
       (Num 1) \<lparr>invocations = 0, sleeps = []\<rparr>"

subsection \<open>Properties of the retry loop\<close>

lemma js_add_one:
  "a < 2 ^ 53 \<Longrightarrow> js_add (Num (of_nat a)) (Num 1) = Num (of_nat (Suc a))"
  using round_double_of_nat[of "Suc a"] by (simp add: add.commute)


text \<open>
  A whole number of attempts, on a function that fails each time: the last error is
  thrown on, after the delays \<^verbatim>\<open>delay * attempt\<close>.
\<close>

lemma retry_loop_exhausted:
  assumes "a \<le> m" "m \<le> 2 ^ 53"
    and "\<forall>k. k \<le> m - a \<longrightarrow> fn (invocations eff + k) = Inl (err (invocations eff + k))"
  shows "retry_loop fn (Num (of_nat m)) dl (Num (of_nat a)) eff =
     Some (Inl (Thrown (err (invocations eff + (m - a)))),
           \<lparr>invocations = invocations eff + (m - a) + 1,
            sleeps = sleeps eff @ map (\<lambda>i. js_mul dl (Num (of_nat i))) [a..<m]\<rparr>)"
  using assms
proof (induction "m - a" arbitrary: a eff)
  case 0
  then have am: "a = m" by simp
  from "0.prems"(3) have here: "fn (invocations eff) = Inl (err (invocations eff))"
    by (metis add.right_neutral le0)
  show ?case
    by (subst retry_loop.simps) (simp add: am here)
next
  case (Suc d)
  then have lt: "a < m" and d: "d = m - Suc a" by simp_all
  from Suc.prems(3) have here: "fn (invocations eff) = Inl (err (invocations eff))"
    by (metis add.right_neutral le0)
  let ?eff = "eff\<lparr>invocations := Suc (invocations eff),
                  sleeps := sleeps eff @ [js_mul dl (Num (of_nat a))]\<rparr>"
  have fails: "\<forall>k. k \<le> m - Suc a \<longrightarrow> fn (invocations ?eff + k) = Inl (err (invocations ?eff + k))"
  proof (intro allI impI)
    fix k assume "k \<le> m - Suc a"
    with lt have "Suc k \<le> m - a" by simp
    with Suc.prems(3) have "fn (invocations eff + Suc k) = Inl (err (invocations eff + Suc k))"
      by blast
    then show "fn (invocations ?eff + k) = Inl (err (invocations ?eff + k))" by simp
  qed
  from lt Suc.prems(2) have a53: "a < 2 ^ 53" by simp
  have neq: "(of_nat a :: rat) \<noteq> of_nat m" using lt by simp
  have le: "(of_nat a :: rat) \<le> of_nat m" using lt by simp
  have step: "retry_loop fn (Num (of_nat m)) dl (Num (of_nat a)) eff =
              retry_loop fn (Num (of_nat m)) dl (Num (of_nat (Suc a))) ?eff"
    by (subst retry_loop.simps) (simp only: js_le.simps js_strict_eq.simps le neq here
          js_add_one[OF a53] if_True if_False sum.case)
  have ih: "retry_loop fn (Num (of_nat m)) dl (Num (of_nat (Suc a))) ?eff =
     Some (Inl (Thrown (err (invocations ?eff + (m - Suc a)))),
           \<lparr>invocations = invocations ?eff + (m - Suc a) + 1,
            sleeps = sleeps ?eff @ map (\<lambda>i. js_mul dl (Num (of_nat i))) [Suc a..<m]\<rparr>)"
    using Suc.hyps(1)[OF d _ Suc.prems(2) fails] lt by simp
  have upt: "[a..<m] = a # [Suc a..<m]" using lt by (rule upt_conv_Cons)
  have idx: "invocations ?eff + (m - Suc a) = invocations eff + (m - a)" using lt by simp
  show ?case unfolding step ih idx upt by simp
qed

text \<open>
  A whole number of attempts, on any function: the call returns, the function has been
  invoked at least once and at most \<^verbatim>\<open>maxRetries\<close> times, and the statement after the
  loop is not reached.
\<close>

lemma retry_loop_bounds:
  assumes "a \<le> m" "m \<le> 2 ^ 53"
  shows "\<exists>r eff'. retry_loop fn (Num (of_nat m)) dl (Num (of_nat a)) eff = Some (r, eff') \<and>
           invocations eff < invocations eff' \<and>
           invocations eff' \<le> invocations eff + (m - a) + 1 \<and> r \<noteq> Inl Unreachable"
  using assms
proof (induction "m - a" arbitrary: a eff)
  case 0
  then have am: "a = m" by simp
  show ?case
    by (subst retry_loop.simps) (cases "fn (invocations eff)"; simp add: am)
next
  case (Suc d)
  then have lt: "a < m" and d: "d = m - Suc a" by simp_all
  from lt Suc.prems(2) have a53: "a < 2 ^ 53" by simp
  have neq: "(of_nat a :: rat) \<noteq> of_nat m" using lt by simp
  have le: "(of_nat a :: rat) \<le> of_nat m" using lt by simp
  show ?case
  proof (cases "fn (invocations eff)")
    case (Inr v)
    with lt show ?thesis by (subst retry_loop.simps) (simp add: le)
  next
    case (Inl e)
    let ?eff = "eff\<lparr>invocations := Suc (invocations eff),
                    sleeps := sleeps eff @ [js_mul dl (Num (of_nat a))]\<rparr>"
    have step: "retry_loop fn (Num (of_nat m)) dl (Num (of_nat a)) eff =
                retry_loop fn (Num (of_nat m)) dl (Num (of_nat (Suc a))) ?eff"
      by (subst retry_loop.simps) (simp only: js_le.simps js_strict_eq.simps le neq Inl
            js_add_one[OF a53] if_True if_False sum.case)
    from Suc.hyps(1)[OF d _ Suc.prems(2), of ?eff] lt
    obtain r eff' where
      "retry_loop fn (Num (of_nat m)) dl (Num (of_nat (Suc a))) ?eff = Some (r, eff')"
      "invocations ?eff < invocations eff'"
      "invocations eff' \<le> invocations ?eff + (m - Suc a) + 1" "r \<noteq> Inl Unreachable"
      by auto
    with lt show ?thesis unfolding step by auto
  qed
qed

lemma retry_loop_skipped:
  "\<not> js_le attempt maxR \<Longrightarrow> retry_loop fn maxR dl attempt eff = Some (Inl Unreachable, eff)"
  by (subst retry_loop.simps) simp

lemma round_double_small:
  "round_double 1 = Num 1" "round_double 2 = Num 2" "round_double 3 = Num 3"
  "round_double 1000 = Num 1000" "round_double 2000 = Num 2000"
  using round_double_of_nat[of 1] round_double_of_nat[of 2] round_double_of_nat[of 3]
    round_double_of_nat[of 1000] round_double_of_nat[of 2000]
  by simp_all



text \<open>
  Claim C10 at a number of retries that is not whole.  With \<open>maxRetries = 2.5\<close> and a
  function that fails each time, the function is invoked twice (after which 1000 and
  2000 milliseconds are slept); \<^verbatim>\<open>attempt === maxRetries\<close> holds for no attempt, the loop
  ends when the counter is 3, and the statement \<^verbatim>\<open>throw new Error('Unreachable')\<close> is
  reached: the error of the last attempt is lost.
\<close>

theorem retry_fractional_maxRetries_reaches_unreachable:
  "retry (\<lambda>k. (Inl k :: nat + nat)) \<lparr>maxRetries = Some (Num (5 / 2)), delay = None\<rparr> =
     Some (Inl Unreachable, \<lparr>invocations = 2, sleeps = [Num 1000, Num 2000]\<rparr>)"
  by (simp add: retry_def retry_loop.simps round_double_small)

section \<open>Media download (\<^verbatim>\<open>migration/src/uploaders/media.ts\<close>, \<^verbatim>\<open>upload-media-to-wp\<close>)\<close>

text \<open>
  What a call can throw: an error of the HTTP client, which carries the status of the
  response when there was one (\<^verbatim>\<open>error.response?.status\<close>), the \<^verbatim>\<open>URIError\<close> of
  \<^verbatim>\<open>decodeURIComponent\<close>, or any other error with its message.
\<close>

datatype thrown = AxiosError "nat option" | URIError | OtherError jsstring

fun response_status :: "thrown \<Rightarrow> nat option" where
  "response_status (AxiosError st) = st"
| "response_status e = None"

record response =
  content_type :: "jsstring option"
  data :: "nat list"

record download =
  buffer :: "nat list"
  filename :: jsstring
  contentType :: jsstring

text \<open>\<^verbatim>\<open>.replace(/[^a-zA-Z0-9._-]/g, '_')\<close>\<close>

definition unsafeCharRe :: regex where
  "unsafeCharRe = NSet [CRange 97 122, CRange 65 90, CRange 48 57, CU 46, CU 95, CU 45]"

definition sanitizeFilename :: "jsstring \<Rightarrow> jsstring" where
  "sanitizeFilename name = replace_all False False unsafeCharRe (\<lambda>m c. js ''_'') name"

text \<open>\<^verbatim>\<open>response.headers['content-type'] || 'image/jpeg'\<close>\<close>

definition declaredContentType :: "response \<Rightarrow> jsstring" where
  "declaredContentType resp =
     (case content_type resp of None \<Rightarrow> js ''image/jpeg''
      | Some t \<Rightarrow> if t = [] then js ''image/jpeg'' else t)"

text \<open>\<^verbatim>\<open>contentType.split('/')[1]?.split(';')[0] || 'jpg'\<close>\<close>

definition contentTypeExt :: "jsstring \<Rightarrow> jsstring" where
  "contentTypeExt ct =
     (case split_char 47 ct of
        major # sub # others \<Rightarrow>
          (if hd (split_char 59 sub) = [] then js ''jpg'' else hd (split_char 59 sub))
      | _ \<Rightarrow> js ''jpg'')"

text \<open>
  \<^verbatim>\<open>downloadImage(url)\<close>.  \<open>http\<close> is the outcome of \<^verbatim>\<open>axios.get(url, ...)\<close>, which rejects
  or resolves with a response; \<open>decode\<close> is the platform's \<^verbatim>\<open>decodeURIComponent\<close>, with
  \<open>None\<close> for its \<^verbatim>\<open>URIError\<close>.  The result is \<open>Inl\<close> for a thrown error, \<open>Inr None\<close> for
  \<^verbatim>\<open>null\<close>.
\<close>

definition downloadImage ::
  "(jsstring \<Rightarrow> jsstring option) \<Rightarrow> thrown + response \<Rightarrow> jsstring \<Rightarrow> thrown + download option"
where
  "downloadImage decode http url =
     (let attempt =
        (case http of
           Inl e \<Rightarrow> Inl e
         | Inr resp \<Rightarrow>
             (case decode (hd (split_char 63 (last (split_char 47 url)))) of
                None \<Rightarrow> Inl URIError
              | Some decoded \<Rightarrow>
                  (let name = sanitizeFilename decoded;
                       name' = (if \<not> js_includes name (js ''.'')
                                then name @ js ''.'' @ contentTypeExt (declaredContentType resp)
                                else name)
                   in Inr \<lparr>buffer = data resp, filename = name',
                            contentType = declaredContentType resp\<rparr>)))
      in case attempt of
           Inr img \<Rightarrow> Inr (Some img)
         | Inl error \<Rightarrow> if response_status error = Some 404 then Inr None else Inl error)"

text \<open>
  \<^verbatim>\<open>processImage(url)\<close>: the download and the upload run inside \<^verbatim>\<open>retry\<close> with
  \<^verbatim>\<open>{ maxRetries: 3, delay: 1000 }\<close>; what \<^verbatim>\<open>retry\<close> throws is logged and turned into
  \<^verbatim>\<open>null\<close>.  \<open>http k\<close> and \<open>upload k\<close> are the outcomes of the HTTP request and of
  \<^verbatim>\<open>uploadToStrapi\<close> in the \<open>k\<close>-th invocation.  The result comes with the invocations made
  and the delays slept; \<open>None\<close> stands for a call that does not return.
\<close>

definition processImage ::
  "(jsstring \<Rightarrow> jsstring option) \<Rightarrow> (nat \<Rightarrow> thrown + response) \<Rightarrow> (nat \<Rightarrow> download \<Rightarrow> thrown + int) \<Rightarrow>
   jsstring \<Rightarrow> (int option \<times> retry_effects) option"
where
  "processImage decode http upload url =
     (if url = [] then Some (None, \<lparr>invocations = 0, sleeps = []\<rparr>)
      else
        (case retry
                (\<lambda>k. case downloadImage decode (http k) url of
                        Inl e \<Rightarrow> Inl e
                      | Inr None \<Rightarrow> Inr None
                      | Inr (Some img) \<Rightarrow>
                          (case upload k img of Inl e \<Rightarrow> Inl e | Inr mediaId \<Rightarrow> Inr (Some mediaId)))
                \<lparr>maxRetries = Some (Num 3), delay = Some (Num 1000)\<rparr> of
           None \<Rightarrow> None
         | Some (Inl error, eff) \<Rightarrow> Some (None, eff)
         | Some (Inr mediaId, eff) \<Rightarrow> Some (mediaId, eff)))"




subsection \<open>Properties of the media download\<close>











lemma retry_first_success:
  "fn 0 = Inr v \<Longrightarrow>
     retry fn \<lparr>maxRetries = Some (Num 3), delay = Some (Num 1000)\<rparr> =
       Some (Inr v, \<lparr>invocations = 1, sleeps = []\<rparr>)"
  by (simp add: retry_def retry_loop.simps)

text \<open>
  Claim C9.  A rejected request whose response has status 404 makes \<^verbatim>\<open>downloadImage\<close>
  return \<^verbatim>\<open>null\<close>, and \<^verbatim>\<open>processImage\<close> then returns \<^verbatim>\<open>null\<close> (the field stays unset)
  after that one invocation, without a delay.  Any other rejection is thrown on by
  \<^verbatim>\<open>downloadImage\<close> to its caller, the \<^verbatim>\<open>retry\<close> inside \<^verbatim>\<open>processImage\<close>: when the
  request keeps failing that way it is made three times, with delays of 1000 and 2000
  milliseconds.
\<close>

theorem download_failure_handling:
  "(response_status e = Some 404 \<longrightarrow> downloadImage decode (Inl e) url = Inr None) \<and>
   (response_status e \<noteq> Some 404 \<longrightarrow> downloadImage decode (Inl e) url = Inl e) \<and>
   (url \<noteq> [] \<and> http 0 = Inl e \<and> response_status e = Some 404
      \<longrightarrow> processImage decode http upload url = Some (None, \<lparr>invocations = 1, sleeps = []\<rparr>)) \<and>
   (url \<noteq> [] \<and> (\<forall>k. k < 3 \<longrightarrow> (\<exists>e'. http k = Inl e' \<and> response_status e' \<noteq> Some 404))
      \<longrightarrow> processImage decode http upload url =
            Some (None, \<lparr>invocations = 3, sleeps = [Num 1000, Num 2000]\<rparr>))"
proof (intro conjI impI)
  assume "response_status e = Some 404"
  then show "downloadImage decode (Inl e) url = Inr None" by (simp add: downloadImage_def)
next
  assume "response_status e \<noteq> Some 404"
  then show "downloadImage decode (Inl e) url = Inl e" by (simp add: downloadImage_def)
next
  assume a: "url \<noteq> [] \<and> http 0 = Inl e \<and> response_status e = Some 404"
  let ?fn = "\<lambda>k. case downloadImage decode (http k) url of
                        Inl e \<Rightarrow> Inl e
                      | Inr None \<Rightarrow> Inr None
                      | Inr (Some img) \<Rightarrow>
                          (case upload k img of Inl e \<Rightarrow> Inl e | Inr mediaId \<Rightarrow> Inr (Some mediaId))"
  have "?fn 0 = Inr None" using a by (simp add: downloadImage_def)
  from retry_first_success[of ?fn, OF this] a
  show "processImage decode http upload url = Some (None, \<lparr>invocations = 1, sleeps = []\<rparr>)"
    by (simp add: processImage_def)
next
  assume a: "url \<noteq> [] \<and> (\<forall>k. k < 3 \<longrightarrow> (\<exists>e'. http k = Inl e' \<and> response_status e' \<noteq> Some 404))"
  let ?fn = "\<lambda>k. case downloadImage decode (http k) url of
                        Inl e \<Rightarrow> Inl e
                      | Inr None \<Rightarrow> Inr None
                      | Inr (Some img) \<Rightarrow>
                          (case upload k img of Inl e \<Rightarrow> Inl e | Inr mediaId \<Rightarrow> Inr (Some mediaId))"
  let ?err = "\<lambda>k. case http k of Inl e' \<Rightarrow> e' | Inr r \<Rightarrow> URIError"
  let ?eff = "\<lparr>invocations = 0, sleeps = []\<rparr>"
  have fails: "\<forall>k. k \<le> 3 - 1 \<longrightarrow> ?fn (invocations ?eff + k) = Inl (?err (invocations ?eff + k))"
  proof (intro allI impI)
    fix k :: nat assume "k \<le> 3 - 1"
    then have "k < 3" by simp
    with a obtain e' where "http k = Inl e'" "response_status e' \<noteq> Some 404" by blast
    then show "?fn (invocations ?eff + k) = Inl (?err (invocations ?eff + k))"
      by (simp add: downloadImage_def)
  qed
  have up: "[1..<3] = [1, 2::nat]" by (simp add: upt_rec)
  have sl: "map (\<lambda>i. js_mul (Num 1000) (Num (of_nat i))) [1..<3] = [Num 1000, Num 2000]"
    unfolding up by (simp add: round_double_small)
  note ex = retry_loop_exhausted[of 1 3 ?fn ?eff ?err "Num 1000", OF _ _ fails, unfolded sl]
  have "retry ?fn \<lparr>maxRetries = Some (Num 3), delay = Some (Num 1000)\<rparr> =
          Some (Inl (Thrown (?err (Suc (Suc 0)))), \<lparr>invocations = 3, sleeps = [Num 1000, Num 2000]\<rparr>)"
    unfolding retry_def using ex by simp
  with a show "processImage decode http upload url = Some (None, \<lparr>invocations = 3, sleeps = [Num 1000, Num 2000]\<rparr>)"
    by (simp add: processImage_def)
qed

theorem download_failure_handling_witness:
  "downloadImage Some (Inl (AxiosError (Some 404))) (js ''https://cdn.example/photo'') = Inr None \<and>
   downloadImage Some (Inl (AxiosError (Some 503))) (js ''https://cdn.example/photo'') =
     Inl (AxiosError (Some 503)) \<and>
   processImage Some (\<lambda>k. Inl (AxiosError (Some 404))) (\<lambda>k d. Inr 5) (js ''https://cdn.example/photo'') =
     Some (None, \<lparr>invocations = 1, sleeps = []\<rparr>) \<and>
   processImage Some (\<lambda>k. Inl (AxiosError (Some 503))) (\<lambda>k d. Inr 5) (js ''https://cdn.example/photo'') =
     Some (None, \<lparr>invocations = 3, sleeps = [Num 1000, Num 2000]\<rparr>)"
proof -
  have u: "js ''https://cdn.example/photo'' \<noteq> []" by (simp add: js_def)
  note t1 = download_failure_handling[of "AxiosError (Some 404)" Some "js ''https://cdn.example/photo''"
      "\<lambda>k. Inl (AxiosError (Some 404))" "\<lambda>k d. Inr 5"]
  note t2 = download_failure_handling[of "AxiosError (Some 503)" Some "js ''https://cdn.example/photo''"
      "\<lambda>k. Inl (AxiosError (Some 503))" "\<lambda>k d. Inr 5"]
  from t1 t2 u show ?thesis by simp
qed

end
